theory Spec2Isabelle
  imports Complex_Main "HOL-Library.Log_Nat"
begin

section \<open>The type float64\<close>

text \<open>
  The throttler computes with Go's \<^verbatim>\<open>float64\<close>, the IEEE 754 binary64 format. This part
  models it: the finite binary64 numbers as the reals they denote, the two infinities and
  NaN; every arithmetic operation computed exactly and then rounded to the nearest
  binary64 number, ties to the even mantissa, with overflow to infinity; comparisons false
  as soon as an operand is NaN.

  Two simplifications, neither of which the throttler can observe: the two zeros are one
  value (the source never divides by a \<^verbatim>\<open>float64\<close> zero that could be negative, and
  comparisons treat the zeros alike), and there is one NaN. Every operation is rounded on
  its own, as the Go compiler does on amd64; on the architectures where it fuses a
  multiplication with an addition, \<^verbatim>\<open>r + step\<close> could differ in the last place.
\<close>

subsection \<open>Rounding\<close>

text \<open>
  \<open>rne\<close> rounds a real to the nearest integer, a tie to the even one. Every finite binary64
  number is an integer multiple of \<open>2 ^ -1074\<close>: \<open>shift y\<close> is the number of low bits of
  that multiple that a 53-bit mantissa cannot hold for numbers of the size of \<open>y\<close> (0 in
  the subnormal range), \<open>nearest y\<close> the multiple of \<open>2 ^ (shift y - 1074)\<close> nearest to \<open>y\<close>,
  and \<open>round64\<close> adds the overflow to infinity at \<open>2 ^ 1024\<close>.
\<close>

definition rne :: "real \<Rightarrow> int" where
  "rne x =
     (let n = \<lfloor>x\<rfloor>; d = x - of_int n
      in if d < 1 / 2 then n else if 1 / 2 < d then n + 1 else if even n then n else n + 1)"

definition scale64 :: real where
  "scale64 = 2 ^ 1074"

definition huge64 :: real where
  "huge64 = 2 ^ 1024"

definition shift :: "real \<Rightarrow> nat" where
  "shift y = nat (bitlen \<lfloor>\<bar>y\<bar> * scale64\<rfloor> - 53)"

definition nearest :: "real \<Rightarrow> real" where
  "nearest y = of_int (rne (y * scale64 / 2 ^ shift y)) * 2 ^ shift y / scale64"

datatype ieee = Num real | PosInf | NegInf | NaN

definition round64 :: "real \<Rightarrow> ieee" where
  "round64 y =
     (let v = nearest y
      in if huge64 \<le> v then PosInf else if v \<le> - huge64 then NegInf else Num v)"

subsection \<open>Operations on rounded values\<close>

text \<open>
  The IEEE operations: NaN in gives NaN out; the sum of opposite infinities, the product
  of zero and an infinity, and the quotients 0/0 and of two infinities are NaN; every
  other result with an infinite operand is the infinity of the right sign; and on finite
  operands the exact result is rounded. A zero divisor is taken to be +0, which is what
  \<^verbatim>\<open>float64(0)\<close> is.
\<close>

fun raw_neg :: "ieee \<Rightarrow> ieee" where
  "raw_neg (Num a) = Num (- a)"
| "raw_neg PosInf = NegInf"
| "raw_neg NegInf = PosInf"
| "raw_neg NaN = NaN"

fun raw_add :: "ieee \<Rightarrow> ieee \<Rightarrow> ieee" where
  "raw_add NaN b = NaN"
| "raw_add a NaN = NaN"
| "raw_add (Num a) (Num b) = round64 (a + b)"
| "raw_add PosInf NegInf = NaN"
| "raw_add NegInf PosInf = NaN"
| "raw_add PosInf b = PosInf"
| "raw_add a PosInf = PosInf"
| "raw_add NegInf b = NegInf"
| "raw_add a NegInf = NegInf"

definition raw_sub :: "ieee \<Rightarrow> ieee \<Rightarrow> ieee" where
  "raw_sub a b = raw_add a (raw_neg b)"

fun raw_sgn :: "ieee \<Rightarrow> real" where
  "raw_sgn (Num a) = sgn a"
| "raw_sgn PosInf = 1"
| "raw_sgn NegInf = - 1"
| "raw_sgn NaN = 0"

definition inf_of_sign :: "real \<Rightarrow> ieee" where
  "inf_of_sign s = (if s = 0 then NaN else if 0 < s then PosInf else NegInf)"

fun raw_mul :: "ieee \<Rightarrow> ieee \<Rightarrow> ieee" where
  "raw_mul NaN b = NaN"
| "raw_mul a NaN = NaN"
| "raw_mul (Num a) (Num b) = round64 (a * b)"
| "raw_mul a b = inf_of_sign (raw_sgn a * raw_sgn b)"

fun raw_div :: "ieee \<Rightarrow> ieee \<Rightarrow> ieee" where
  "raw_div NaN b = NaN"
| "raw_div a NaN = NaN"
| "raw_div (Num a) (Num b) = (if b = 0 then inf_of_sign (sgn a) else round64 (a / b))"
| "raw_div (Num a) b = Num 0"
| "raw_div a (Num b) = (if 0 \<le> b then a else raw_neg a)"
| "raw_div a b = NaN"

fun raw_le :: "ieee \<Rightarrow> ieee \<Rightarrow> bool" where
  "raw_le NaN b = False"
| "raw_le a NaN = False"
| "raw_le (Num a) (Num b) = (a \<le> b)"
| "raw_le NegInf b = True"
| "raw_le a PosInf = True"
| "raw_le a b = False"

fun raw_lt :: "ieee \<Rightarrow> ieee \<Rightarrow> bool" where
  "raw_lt NaN b = False"
| "raw_lt a NaN = False"
| "raw_lt (Num a) (Num b) = (a < b)"
| "raw_lt PosInf b = False"
| "raw_lt a NegInf = False"
| "raw_lt a b = True"

subsection \<open>The type\<close>

text \<open>
  The type itself: the values that rounding leaves alone. All of the source's
  \<^verbatim>\<open>float64\<close> variables, fields and constants have this type; \<open>fl c\<close> is the constant that
  Go makes of the decimal literal or integer \<open>c\<close>. The operations of the source are the
  operations above on the representatives.
\<close>

definition is_float64 :: "ieee \<Rightarrow> bool" where
  "is_float64 v = (case v of Num x \<Rightarrow> round64 x = Num x | _ \<Rightarrow> True)"

typedef float64 = "{v. is_float64 v}"
  by (rule exI [of _ NaN]) (simp add: is_float64_def)

definition fl :: "real \<Rightarrow> float64" where
  "fl c = Abs_float64 (round64 c)"

definition nan :: float64 where
  "nan = Abs_float64 NaN"

definition pinf :: float64 where
  "pinf = Abs_float64 PosInf"

definition ninf :: float64 where
  "ninf = Abs_float64 NegInf"

text \<open>\<^verbatim>\<open>a + b\<close>, \<^verbatim>\<open>a - b\<close>, \<^verbatim>\<open>a * b\<close> and \<^verbatim>\<open>a / b\<close>.\<close>

definition fadd :: "float64 \<Rightarrow> float64 \<Rightarrow> float64" where
  "fadd a b = Abs_float64 (raw_add (Rep_float64 a) (Rep_float64 b))"

definition fsub :: "float64 \<Rightarrow> float64 \<Rightarrow> float64" where
  "fsub a b = Abs_float64 (raw_sub (Rep_float64 a) (Rep_float64 b))"

definition fmul :: "float64 \<Rightarrow> float64 \<Rightarrow> float64" where
  "fmul a b = Abs_float64 (raw_mul (Rep_float64 a) (Rep_float64 b))"

definition fdiv :: "float64 \<Rightarrow> float64 \<Rightarrow> float64" where
  "fdiv a b = Abs_float64 (raw_div (Rep_float64 a) (Rep_float64 b))"

text \<open>\<^verbatim>\<open>a <= b\<close>, \<^verbatim>\<open>a < b\<close>, \<^verbatim>\<open>a >= b\<close> and \<^verbatim>\<open>a > b\<close>.\<close>

definition fle :: "float64 \<Rightarrow> float64 \<Rightarrow> bool" where
  "fle a b = raw_le (Rep_float64 a) (Rep_float64 b)"

definition flt :: "float64 \<Rightarrow> float64 \<Rightarrow> bool" where
  "flt a b = raw_lt (Rep_float64 a) (Rep_float64 b)"

definition fge :: "float64 \<Rightarrow> float64 \<Rightarrow> bool" where
  "fge a b = fle b a"

definition fgt :: "float64 \<Rightarrow> float64 \<Rightarrow> bool" where
  "fgt a b = flt b a"

definition is_nan :: "float64 \<Rightarrow> bool" where
  "is_nan a = (Rep_float64 a = NaN)"

definition is_finite :: "float64 \<Rightarrow> bool" where
  "is_finite a = (case Rep_float64 a of Num x \<Rightarrow> True | _ \<Rightarrow> False)"

text \<open>A real that is a binary64 number as it stands.\<close>

definition exact :: "real \<Rightarrow> bool" where
  "exact x = (round64 x = Num x)"

section \<open>Data model of package throttler\<close>

text \<open>
  The throttler of \<^verbatim>\<open>throttler.go\<close> keeps a percentage of allowed requests behind an
  atomically swapped pointer, and a control loop (\<^verbatim>\<open>Start\<close>) that adjusts it from CPU
  samples. The embedding follows the source function by function.

  Modelling conventions:
  \<^item> \<^verbatim>\<open>float64\<close> is the type \<open>float64\<close> of the first part: every operation of the source
    on a \<^verbatim>\<open>float64\<close> is the rounded operation, every comparison the IEEE comparison, and a
    constant \<open>c\<close> of the source is \<open>fl c\<close>.
  \<^item> \<^verbatim>\<open>unsafe.Pointer\<close> is an optional address (\<open>None\<close> is the nil pointer) into a heap
    of \<^verbatim>\<open>float64\<close> boxes; taking the address of a local variable that escapes
    (\<^verbatim>\<open>unsafe.Pointer(&r)\<close>) allocates a fresh box.
  \<^item> a channel value is optional as well: \<open>None\<close> is the nil channel.
  \<^item> the values the environment supplies are parameters: the number drawn by
    \<^verbatim>\<open>t.rand.Float64()\<close>, the pair returned by \<^verbatim>\<open>t.cpuUsage()\<close>, and the order in
    which the cases of the \<^verbatim>\<open>select\<close> become ready.
  \<^item> the critical section of \<^verbatim>\<open>t.mu\<close> is one atomic step.
\<close>

type_synonym duration = int
type_synonym addr = nat
type_synonym ticker = nat

datatype error = ErrAlreadyStarted | SamplerError string

datatype panic = NilDereference | NonPositiveTickerInterval

datatype chan = Chan nat

datatype log_line = NoStatsCollected | CpuStatsFailed error

text \<open>
  The struct \<^verbatim>\<open>T\<close> (lines 39-52). The field \<^verbatim>\<open>done\<close> is called \<open>done_ch\<close> here,
  \<open>done\<close> being a keyword. The fields \<^verbatim>\<open>cpuUsage\<close>, \<^verbatim>\<open>rand\<close> and \<^verbatim>\<open>mu\<close> have no
  counterpart: see the conventions above.
\<close>

record T =
  L :: float64
  R :: float64
  K :: float64
  r :: "addr option"
  interval :: duration
  intervalStep :: duration
  done_ch :: "chan option"
  started :: bool

text \<open>
  What a throttler lives in: the heap of \<^verbatim>\<open>float64\<close> boxes with its next free address,
  the runtime's tickers (\<open>True\<close> while a ticker runs) and the lines written by \<^verbatim>\<open>log\<close>.
\<close>

record world =
  thr :: T
  heap :: "addr \<Rightarrow> float64"
  fresh :: addr
  tickers :: "bool list"
  logged :: "log_line list"

section \<open>The shared rate\<close>

text \<open>
  \<^verbatim>\<open>atomic.StorePointer(&t.r, unsafe.Pointer(&v))\<close> for a local \<^verbatim>\<open>v\<close>: a fresh box
  holding \<open>v\<close>, and \<^verbatim>\<open>t.r\<close> pointing to it.
\<close>

definition StorePointer_r :: "world \<Rightarrow> float64 \<Rightarrow> world" where
  "StorePointer_r w v =
     w\<lparr>thr := (thr w)\<lparr>r := Some (fresh w)\<rparr>,
       heap := (heap w)(fresh w := v),
       fresh := Suc (fresh w)\<rparr>"

text \<open>\<^verbatim>\<open>*(*float64)(atomic.LoadPointer(&t.r))\<close>: \<open>None\<close> when \<^verbatim>\<open>t.r\<close> is nil.\<close>

definition LoadPointer_r :: "world \<Rightarrow> float64 option" where
  "LoadPointer_r w = (case r (thr w) of None \<Rightarrow> None | Some a \<Rightarrow> Some (heap w a))"

section \<open>New, Allow, Stop\<close>

text \<open>
  \<^verbatim>\<open>New\<close> (lines 55-67) fills \<^verbatim>\<open>L\<close>, \<^verbatim>\<open>K\<close>, \<^verbatim>\<open>interval\<close>, \<^verbatim>\<open>intervalStep\<close>,
  \<^verbatim>\<open>rand\<close> and \<^verbatim>\<open>cpuUsage\<close>, and stores a pointer to 100. Every other field keeps its
  zero value: \<^verbatim>\<open>R\<close> is 0, \<^verbatim>\<open>started\<close> is false and \<^verbatim>\<open>done\<close> is the nil channel.
\<close>

definition New :: "float64 \<Rightarrow> float64 \<Rightarrow> duration \<Rightarrow> duration \<Rightarrow> world" where
  "New cpuLimit k interval' intervalStep' =
     StorePointer_r
       \<lparr>thr = \<lparr>L = cpuLimit, R = fl 0, K = k, r = None,
               interval = interval', intervalStep = intervalStep',
               done_ch = None, started = False\<rparr>,
        heap = (\<lambda>_. fl 0), fresh = 0, tickers = [], logged = []\<rparr>
       (fl 100)"

text \<open>
  \<^verbatim>\<open>Allow\<close> (lines 81-83). \<open>f\<close> is the value of \<^verbatim>\<open>t.rand.Float64()\<close>, which the
  library documents to lie in the half-open interval from 0 to 1.
\<close>

definition Allow :: "world \<Rightarrow> float64 \<Rightarrow> panic + bool" where
  "Allow w f =
     (case LoadPointer_r w of
        None \<Rightarrow> Inl NilDereference
      | Some rate \<Rightarrow> Inr (flt (fmul f (fl 100)) rate))"

text \<open>
  \<^verbatim>\<open>Stop\<close> (lines 168-170) sends on \<^verbatim>\<open>t.done\<close>. A send on a nil channel blocks for
  ever; a send on an unbuffered channel is an offer that completes when a receiver takes it.
\<close>

datatype send = SendBlocksForever | SendOffered chan

definition Stop :: "world \<Rightarrow> send" where
  "Stop w = (case done_ch (thr w) of None \<Rightarrow> SendBlocksForever | Some c \<Rightarrow> SendOffered c)"

section \<open>The control loop\<close>

text \<open>The conversion \<^verbatim>\<open>float64(len(stats))\<close> of line 130.\<close>

definition float64_of_int :: "nat \<Rightarrow> float64" where
  "float64_of_int n = fl (real n)"

text \<open>
  \<^verbatim>\<open>time.NewTicker(d)\<close> panics when \<open>d\<close> is not positive; \<^verbatim>\<open>Stop\<close> on a ticker turns
  it off.
\<close>

definition NewTicker :: "world \<Rightarrow> duration \<Rightarrow> (ticker \<times> world) option" where
  "NewTicker w d =
     (if d \<le> 0 then None
      else Some (length (tickers w), w\<lparr>tickers := tickers w @ [True]\<rparr>))"

definition StopTicker :: "world \<Rightarrow> ticker \<Rightarrow> world" where
  "StopTicker w k = w\<lparr>tickers := (tickers w)[k := False]\<rparr>"

definition Println :: "world \<Rightarrow> log_line \<Rightarrow> world" where
  "Println w l = w\<lparr>logged := logged w @ [l]\<rparr>"

text \<open>The variables of \<^verbatim>\<open>Start\<close> (lines 101-105).\<close>

record loop_vars =
  itk :: ticker
  istk :: ticker
  stats :: "float64 list"

text \<open>
  What can wake the \<^verbatim>\<open>select\<close> of line 112: a caller of \<^verbatim>\<open>Stop\<close> offering its send
  on \<^verbatim>\<open>t.done\<close>, a tick of \<^verbatim>\<open>itk\<close>, or a tick of \<^verbatim>\<open>istk\<close>, which comes with the
  pair that \<^verbatim>\<open>t.cpuUsage()\<close> returns at that tick.
\<close>

datatype event = StopSend | ItkTick | IstkTick float64 "error option"

datatype iteration =
    Continue world loop_vars
  | Return "error option" world
  | Panic panic world

text \<open>
  One turn of the \<^verbatim>\<open>for\<close> loop (lines 111-164). A nil channel is never ready, so with
  \<^verbatim>\<open>t.done\<close> nil the first case is never taken and an offered send changes nothing.
  The \<^verbatim>\<open>switch\<close> of line 135 has no default: when neither comparison holds (the average
  is NaN) nothing is stored.
\<close>

fun select_case :: "world \<Rightarrow> loop_vars \<Rightarrow> event \<Rightarrow> iteration" where
  "select_case w lv StopSend =
     (case done_ch (thr w) of
        None \<Rightarrow> Continue w lv
      | Some c \<Rightarrow> Return None (StopTicker (StopTicker w (istk lv)) (itk lv)))"
| "select_case w lv ItkTick =
     (if length (stats lv) = 0 then Continue (Println w NoStatsCollected) lv
      else
        let sum = foldl fadd (fl 0) (stats lv);
            avg = fdiv sum (float64_of_int (length (stats lv)))
        in (case LoadPointer_r w of
              None \<Rightarrow> Panic NilDereference w
            | Some cur \<Rightarrow>
                let step = fmul (K (thr w)) (fsub (L (thr w)) avg);
                    newR = fadd cur step;
                    w' = (if fge avg (L (thr w)) then
                            StorePointer_r w (if flt newR (fl 0) then fl 0 else newR)
                          else if flt avg (L (thr w)) then
                            StorePointer_r w (if fgt newR (fl 100) then fl 100 else newR)
                          else w)
                in Continue w' (lv\<lparr>stats := []\<rparr>)))"
| "select_case w lv (IstkTick cpuUsage err) =
     (case err of
        Some e \<Rightarrow> Continue (Println w (CpuStatsFailed e)) lv
      | None \<Rightarrow> Continue w (lv\<lparr>stats := stats lv @ [cpuUsage]\<rparr>))"

text \<open>
  The loop over a schedule, the finite list of events that have happened so far. When the
  schedule is used up the loop is blocked in \<^verbatim>\<open>select\<close>: it has not returned.
\<close>

datatype outcome =
    Blocked world loop_vars
  | Returned "error option" world
  | Panicked panic world

fun loop :: "world \<Rightarrow> loop_vars \<Rightarrow> event list \<Rightarrow> outcome" where
  "loop w lv [] = Blocked w lv"
| "loop w lv (e # es) =
     (case select_case w lv e of
        Continue w' lv' \<Rightarrow> loop w' lv' es
      | Return err w' \<Rightarrow> Returned err w'
      | Panic p w' \<Rightarrow> Panicked p w')"

text \<open>
  The deferred function of lines 106-110. It runs when \<^verbatim>\<open>Start\<close> leaves the loop, by
  \<^verbatim>\<open>return\<close> or by a panic; a loop blocked in \<^verbatim>\<open>select\<close> has not run it.
\<close>

definition deferred :: "world \<Rightarrow> world" where
  "deferred w = w\<lparr>thr := (thr w)\<lparr>started := False\<rparr>\<rparr>"

fun run_deferred :: "outcome \<Rightarrow> outcome" where
  "run_deferred (Blocked w lv) = Blocked w lv"
| "run_deferred (Returned err w) = Returned err (deferred w)"
| "run_deferred (Panicked p w) = Panicked p (deferred w)"

text \<open>
  \<^verbatim>\<open>Start\<close> (lines 88-165). The tickers are made before the \<^verbatim>\<open>defer\<close> statement is
  reached, so a panic of \<^verbatim>\<open>NewTicker\<close> leaves \<^verbatim>\<open>started\<close> set.
\<close>

definition Start :: "world \<Rightarrow> event list \<Rightarrow> outcome" where
  "Start w evs =
     (if started (thr w) then Returned (Some ErrAlreadyStarted) w
      else
        let w1 = w\<lparr>thr := (thr w)\<lparr>started := True\<rparr>\<rparr>;
            w2 = StorePointer_r w1 (fl 100)
        in (case NewTicker w2 (interval (thr w2)) of
              None \<Rightarrow> Panicked NonPositiveTickerInterval w2
            | Some (itk', w3) \<Rightarrow>
                (case NewTicker w3 (intervalStep (thr w3)) of
                   None \<Rightarrow> Panicked NonPositiveTickerInterval w3
                 | Some (istk', w4) \<Rightarrow>
                     run_deferred (loop w4 \<lparr>itk = itk', istk = istk', stats = []\<rparr> evs))))"

text \<open>The state of the world an outcome leaves behind.\<close>

fun world_of :: "outcome \<Rightarrow> world" where
  "world_of (Blocked w lv) = w"
| "world_of (Returned err w) = w"
| "world_of (Panicked p w) = w"

section \<open>The adjustment in the words of the specification\<close>

text \<open>
  The mean of a window as the loop computes it (lines 126-130): the samples added up in
  buffer order, starting from 0, and the sum divided by their number.
\<close>

definition window_avg :: "float64 list \<Rightarrow> float64" where
  "window_avg samples = fdiv (foldl fadd (fl 0) samples) (float64_of_int (length samples))"

text \<open>
  What an evaluation tick writes, as the specification describes it: with the mean
  \<open>avg\<close> of the buffered samples, the step \<open>K * (L - avg)\<close> and \<open>newR\<close> the sum of current
  rate and step, it writes \<open>newR\<close> clamped to a minimum of 0 if \<open>avg >= L\<close>, it writes
  \<open>newR\<close> clamped to a maximum of 100 if \<open>avg < L\<close>. The specification names no other
  case: \<open>None\<close> stands for nothing written.
\<close>

definition spec_write :: "float64 \<Rightarrow> float64 \<Rightarrow> float64 \<Rightarrow> float64 list \<Rightarrow> float64 option" where
  "spec_write l k currentR samples =
     (let avg = window_avg samples;
          step = fmul k (fsub l avg);
          newR = fadd currentR step
      in if fge avg l then Some (if flt newR (fl 0) then fl 0 else newR)
         else if flt avg l then Some (if fgt newR (fl 100) then fl 100 else newR)
         else None)"

text \<open>The invariant of the shared rate: \<^verbatim>\<open>t.r\<close> points to a value from 0 to 100.\<close>

definition rate_in_range :: "world \<Rightarrow> bool" where
  "rate_in_range w =
     (case LoadPointer_r w of
        None \<Rightarrow> False
      | Some v \<Rightarrow> fle (fl 0) v \<and> fle v (fl 100))"

text \<open>A sample tick that delivers a reading at or above the limit, or no reading.\<close>

fun at_or_above :: "float64 \<Rightarrow> event \<Rightarrow> bool" where
  "at_or_above l (IstkTick cpuUsage None) = fge cpuUsage l"
| "at_or_above l (IstkTick cpuUsage (Some e)) = True"
| "at_or_above l ItkTick = True"
| "at_or_above l StopSend = True"

text \<open>
  The windows of a schedule: the sample buffers, in order, that its evaluation ticks find
  not empty, when the loop starts the schedule with the buffer \<open>buf\<close>; and the buffer the
  schedule leaves behind.
\<close>

fun windows :: "float64 list \<Rightarrow> event list \<Rightarrow> float64 list list" where
  "windows buf [] = []"
| "windows buf (StopSend # es) = windows buf es"
| "windows buf (IstkTick cpuUsage None # es) = windows (buf @ [cpuUsage]) es"
| "windows buf (IstkTick cpuUsage (Some e) # es) = windows buf es"
| "windows buf (ItkTick # es) = (if buf = [] then windows [] es else buf # windows [] es)"

fun buffer_after :: "float64 list \<Rightarrow> event list \<Rightarrow> float64 list" where
  "buffer_after buf [] = buf"
| "buffer_after buf (StopSend # es) = buffer_after buf es"
| "buffer_after buf (IstkTick cpuUsage None # es) = buffer_after (buf @ [cpuUsage]) es"
| "buffer_after buf (IstkTick cpuUsage (Some e) # es) = buffer_after buf es"
| "buffer_after buf (ItkTick # es) = buffer_after [] es"

text \<open>
  A window whose step is a number, or whose mean is NaN already (then the \<^verbatim>\<open>switch\<close> takes
  no case and the step is not used).
\<close>

definition step_defined :: "float64 \<Rightarrow> float64 \<Rightarrow> float64 list \<Rightarrow> bool" where
  "step_defined l k samples =
     (is_nan (window_avg samples) \<or> \<not> is_nan (fmul k (fsub l (window_avg samples))))"

text \<open>A window whose mean, as the loop computes it, is at or above the limit.\<close>

definition mean_at_or_above :: "float64 \<Rightarrow> float64 list \<Rightarrow> bool" where
  "mean_at_or_above l samples = fge (window_avg samples) l"

section \<open>Facts about float64\<close>

subsection \<open>Properties of rounding\<close>

lemma scale64_pos [simp]: "0 < scale64"
  by (simp add: scale64_def)

lemma rne_of_int [simp]: "rne (of_int k) = k"
  by (simp add: rne_def)

lemma rne_floor: "\<lfloor>x\<rfloor> \<le> rne x \<and> rne x \<le> \<lfloor>x\<rfloor> + 1"
  by (simp add: rne_def Let_def)

lemma rne_mono:
  assumes "x \<le> y"
  shows "rne x \<le> rne y"
proof (cases "\<lfloor>x\<rfloor> = \<lfloor>y\<rfloor>")
  case True
  have "x - of_int \<lfloor>y\<rfloor> \<le> y - of_int \<lfloor>y\<rfloor>" using assms by simp
  then show ?thesis by (auto simp: rne_def Let_def True)
next
  case False
  with floor_mono [OF assms] have "\<lfloor>x\<rfloor> + 1 \<le> \<lfloor>y\<rfloor>" by simp
  with rne_floor [of x] rne_floor [of y] show ?thesis by linarith
qed

lemma rne_neg: "rne (- x) = - rne x"
proof (cases "x = of_int \<lfloor>x\<rfloor>")
  case True
  then obtain k where "x = of_int k" ..
  then have "- x = of_int (- k)" by simp
  then show ?thesis using \<open>x = of_int k\<close> by (simp only: rne_of_int)
next
  case False
  then have c: "\<lceil>x\<rceil> = \<lfloor>x\<rfloor> + 1" by (simp add: ceiling_altdef)
  have f: "\<lfloor>- x\<rfloor> = - \<lfloor>x\<rfloor> - 1" using c by (simp add: ceiling_def)
  show ?thesis
    by (auto simp: rne_def Let_def f)
qed

lemma rne_nonneg: "0 \<le> x \<Longrightarrow> 0 \<le> rne x"
  using rne_mono [of 0 x] rne_of_int [of 0] by simp

lemma shift_upper: "\<bar>y\<bar> * scale64 < 2 ^ (53 + shift y)"
proof -
  let ?g = "\<lfloor>\<bar>y\<bar> * scale64\<rfloor>"
  have "bitlen ?g \<le> 53 + int (shift y)" by (simp add: shift_def)
  then have "?g < 2 ^ nat (53 + int (shift y))" by (simp add: bitlen_le_iff_power)
  then have "?g < 2 ^ (53 + shift y)" by (simp add: nat_add_distrib)
  then show ?thesis by (simp add: floor_less_iff)
qed

lemma shift_lower:
  assumes "0 < shift y"
  shows "2 ^ (52 + shift y) \<le> \<bar>y\<bar> * scale64"
proof -
  let ?g = "\<lfloor>\<bar>y\<bar> * scale64\<rfloor>"
  from assms have "53 + int (shift y) \<le> bitlen ?g" by (simp add: shift_def)
  then have "2 ^ (nat (53 + int (shift y)) - 1) \<le> ?g" by (simp add: bitlen_ge_iff_power)
  moreover have "nat (53 + int (shift y)) - 1 = 52 + shift y" by (simp add: nat_add_distrib)
  ultimately have "(2::int) ^ (52 + shift y) \<le> ?g" by simp
  then show ?thesis by (simp add: le_floor_iff)
qed

lemma shift_unique:
  assumes "\<bar>y\<bar> * scale64 < 2 ^ (53 + s)" and "s = 0 \<or> 2 ^ (52 + s) \<le> \<bar>y\<bar> * scale64"
  shows "shift y = s"
proof -
  let ?g = "\<lfloor>\<bar>y\<bar> * scale64\<rfloor>"
  from assms(1) have "?g < 2 ^ (53 + s)" by (simp add: floor_less_iff)
  then have "?g < 2 ^ nat (53 + int s)" by (simp add: nat_add_distrib)
  then have up: "bitlen ?g \<le> 53 + int s" by (simp add: bitlen_le_iff_power)
  then have le: "shift y \<le> s" by (simp add: shift_def)
  show ?thesis
  proof (cases "s = 0")
    case True
    with le show ?thesis by simp
  next
    case False
    with assms(2) have "(2::int) ^ (52 + s) \<le> ?g" by (simp add: le_floor_iff)
    moreover have "nat (53 + int s) - 1 = 52 + s" by (simp add: nat_add_distrib)
    ultimately have "53 + int s \<le> bitlen ?g" by (simp add: bitlen_ge_iff_power)
    with up show ?thesis by (simp add: shift_def)
  qed
qed

lemma shift_neg [simp]: "shift (- y) = shift y"
  by (simp add: shift_def)

lemma shift_mono:
  assumes "\<bar>y\<bar> \<le> \<bar>z\<bar>"
  shows "shift y \<le> shift z"
proof -
  let ?g = "\<lfloor>\<bar>y\<bar> * scale64\<rfloor>"
  have "\<bar>y\<bar> * scale64 \<le> \<bar>z\<bar> * scale64" using assms by simp
  with shift_upper [of z] have "\<bar>y\<bar> * scale64 < 2 ^ (53 + shift z)" by linarith
  then have "?g < 2 ^ (53 + shift z)" by (simp add: floor_less_iff)
  then have "?g < 2 ^ nat (53 + int (shift z))" by (simp add: nat_add_distrib)
  then have "bitlen ?g \<le> 53 + int (shift z)" by (simp add: bitlen_le_iff_power)
  then have "nat (bitlen ?g - 53) \<le> shift z" by simp
  moreover have "shift y = nat (bitlen ?g - 53)" by (simp add: shift_def)
  ultimately show ?thesis by simp
qed

lemma nearest_neg: "nearest (- y) = - nearest y"
  by (simp add: nearest_def rne_neg)

lemma nearest_zero [simp]: "nearest 0 = 0"
  by (simp add: nearest_def rne_def)

lemma mantissa_upper: "\<bar>y\<bar> * scale64 / 2 ^ shift y < 2 ^ 53"
proof -
  have "\<bar>y\<bar> * scale64 < 2 ^ 53 * 2 ^ shift y" using shift_upper [of y] by (simp add: power_add)
  then show ?thesis by (simp add: divide_less_eq)
qed

lemma mantissa_lower: "0 < shift y \<Longrightarrow> 2 ^ 52 \<le> \<bar>y\<bar> * scale64 / 2 ^ shift y"
proof -
  assume "0 < shift y"
  from shift_lower [OF this] have "2 ^ 52 * 2 ^ shift y \<le> \<bar>y\<bar> * scale64" by (simp add: power_add)
  then show ?thesis by (simp add: le_divide_eq)
qed

lemma nearest_nonneg:
  assumes "0 \<le> y"
  shows "0 \<le> nearest y"
proof -
  have "0 \<le> y * scale64 / 2 ^ shift y" using assms by (simp add: less_imp_le)
  from rne_nonneg [OF this] show ?thesis by (simp add: nearest_def less_imp_le)
qed

lemma nearest_mono_nonneg:
  assumes "0 \<le> y" and "y \<le> z"
  shows "nearest y \<le> nearest z"
proof -
  have z0: "0 \<le> z" using assms by simp
  have ay: "\<bar>y\<bar> = y" and az: "\<bar>z\<bar> = z" using assms by simp_all
  have sm: "shift y \<le> shift z" by (rule shift_mono) (use assms in simp)
  show ?thesis
  proof (cases "shift y = shift z")
    case True
    have "y * scale64 / 2 ^ shift z \<le> z * scale64 / 2 ^ shift z"
      using assms(2) by (simp add: divide_right_mono mult_right_mono less_imp_le)
    from rne_mono [OF this]
    have "real_of_int (rne (y * scale64 / 2 ^ shift z)) * 2 ^ shift z
        \<le> real_of_int (rne (z * scale64 / 2 ^ shift z)) * 2 ^ shift z"
      by (simp add: mult_right_mono)
    then show ?thesis
      by (simp add: nearest_def True divide_right_mono less_imp_le)
  next
    case False
    with sm have lt: "shift y < shift z" by simp
    have "y * scale64 / 2 ^ shift y \<le> 2 ^ 53" using mantissa_upper [of y] ay by simp
    from rne_mono [OF this] have my: "rne (y * scale64 / 2 ^ shift y) \<le> 2 ^ 53"
      using rne_of_int [of "2 ^ 53"] by simp
    from lt have "0 < shift z" by simp
    from mantissa_lower [OF this] have "2 ^ 52 \<le> z * scale64 / 2 ^ shift z" using az by simp
    from rne_mono [OF this] have mz: "2 ^ 52 \<le> rne (z * scale64 / 2 ^ shift z)"
      using rne_of_int [of "2 ^ 52"] by simp
    have "real_of_int (rne (y * scale64 / 2 ^ shift y)) * 2 ^ shift y \<le> 2 ^ 53 * 2 ^ shift y"
      using my by (simp add: mult_right_mono)
    also have "\<dots> = 2 ^ 52 * 2 ^ Suc (shift y)" by simp
    also have "\<dots> \<le> 2 ^ 52 * 2 ^ shift z"
      using lt by (simp add: power_increasing Suc_leI del: power_Suc)
    also have "\<dots> \<le> real_of_int (rne (z * scale64 / 2 ^ shift z)) * 2 ^ shift z"
      using mz by (simp add: mult_right_mono)
    finally show ?thesis by (simp add: nearest_def divide_right_mono less_imp_le)
  qed
qed

lemma nearest_mono:
  assumes "y \<le> z"
  shows "nearest y \<le> nearest z"
proof (cases "0 \<le> y")
  case True
  then show ?thesis using assms by (rule nearest_mono_nonneg)
next
  case False
  show ?thesis
  proof (cases "z \<le> 0")
    case True
    have "nearest (- z) \<le> nearest (- y)"
      by (rule nearest_mono_nonneg) (use True assms in simp_all)
    then show ?thesis by (simp add: nearest_neg)
  next
    case z: False
    have "0 \<le> nearest (- y)" by (rule nearest_nonneg) (use False in simp)
    moreover have "0 \<le> nearest z" by (rule nearest_nonneg) (use z in simp)
    ultimately show ?thesis by (simp add: nearest_neg)
  qed
qed

lemma scale64_abs [simp]: "\<bar>scale64\<bar> = scale64"
  by (simp add: scale64_def)

lemma scale64_nonzero [simp]: "scale64 \<noteq> 0"
  by (simp add: scale64_def)

lemma nearest_exact:
  assumes "\<bar>m\<bar> < 2 ^ 53"
  shows "nearest (of_int m * 2 ^ j / scale64) = of_int m * 2 ^ j / scale64"
proof -
  let ?y = "real_of_int m * 2 ^ j / scale64"
  have sc: "\<bar>?y\<bar> * scale64 = \<bar>real_of_int m\<bar> * 2 ^ j"
    by (simp add: abs_mult)
  have le: "shift ?y \<le> j"
  proof (rule ccontr)
    assume "\<not> shift ?y \<le> j"
    then have gt: "Suc j \<le> shift ?y" and pos: "0 < shift ?y" by simp_all
    from shift_lower [OF pos] sc have "2 ^ (52 + shift ?y) \<le> \<bar>real_of_int m\<bar> * 2 ^ j"
      by simp
    moreover have "\<bar>real_of_int m\<bar> < 2 ^ 53" using assms
      by (metis of_int_abs of_int_less_numeral_power_cancel_iff)
    then have "\<bar>real_of_int m\<bar> * 2 ^ j < 2 ^ 53 * 2 ^ j" by (simp add: mult_strict_right_mono)
    moreover have "(2::real) ^ 53 * 2 ^ j = 2 ^ (52 + Suc j)"
    proof -
      have "53 + j = 52 + Suc j" by simp
      then show ?thesis by (metis power_add)
    qed
    moreover have "(2::real) ^ (52 + Suc j) \<le> 2 ^ (52 + shift ?y)"
      using gt by (intro power_increasing) simp_all
    ultimately show False by linarith
  qed
  have "?y * scale64 / 2 ^ shift ?y = real_of_int m * (2 ^ j / 2 ^ shift ?y)" by simp
  also have "\<dots> = real_of_int m * 2 ^ (j - shift ?y)" using le by (simp add: power_diff)
  also have "\<dots> = real_of_int (m * 2 ^ (j - shift ?y))" by simp
  finally have "rne (?y * scale64 / 2 ^ shift ?y) = m * 2 ^ (j - shift ?y)"
    by (simp only: rne_of_int)
  then have "nearest ?y = real_of_int (m * 2 ^ (j - shift ?y)) * 2 ^ shift ?y / scale64"
    by (simp only: nearest_def)
  also have "\<dots> = real_of_int m * (2 ^ (j - shift ?y) * 2 ^ shift ?y) / scale64" by simp
  also have "(2::real) ^ (j - shift ?y) * 2 ^ shift ?y = 2 ^ j"
    using le by (simp add: power_add [symmetric])
  finally show ?thesis .
qed

lemma nearest_eval:
  assumes "\<bar>y\<bar> * scale64 < 2 ^ (53 + s)" and "s = 0 \<or> 2 ^ (52 + s) \<le> \<bar>y\<bar> * scale64"
    and "rne (y * scale64 / 2 ^ s) = M"
  shows "nearest y = of_int M * 2 ^ s / scale64"
  using shift_unique [OF assms(1,2)] assms(3) by (simp add: nearest_def)

lemma mantissa_bound: "\<bar>rne (y * scale64 / 2 ^ shift y)\<bar> \<le> 2 ^ 53"
proof -
  let ?q = "y * scale64 / 2 ^ shift y"
  have "\<bar>?q\<bar> = \<bar>y\<bar> * scale64 / 2 ^ shift y" by (simp add: abs_mult)
  with mantissa_upper [of y] have "\<bar>?q\<bar> < 2 ^ 53" by simp
  then have "?q < 2 ^ 53" and "- ?q < 2 ^ 53" by (simp_all only: abs_less_iff)
  then have "- (2 ^ 53) \<le> ?q" and "?q \<le> 2 ^ 53" by linarith+
  from rne_mono [OF this(1)] rne_mono [OF this(2)]
    rne_of_int [of "- (2 ^ 53)"] rne_of_int [of "2 ^ 53"]
  show ?thesis by simp
qed

lemma nearest_idem: "nearest (nearest y) = nearest y"
proof -
  let ?M = "rne (y * scale64 / 2 ^ shift y)"
  have n: "nearest y = real_of_int ?M * 2 ^ shift y / scale64" by (simp add: nearest_def)
  consider "\<bar>?M\<bar> < 2 ^ 53" | "?M = 2 ^ 53" | "?M = - (2 ^ 53)"
    using mantissa_bound [of y] by linarith
  then show ?thesis
  proof cases
    case 1
    from nearest_exact [OF this, of "shift y"] show ?thesis by (simp only: n)
  next
    case 2
    have "nearest y = real_of_int 1 * 2 ^ (53 + shift y) / scale64"
      by (simp add: n 2 power_add)
    moreover have "\<bar>1::int\<bar> < 2 ^ 53" by simp
    ultimately show ?thesis using nearest_exact [of 1 "53 + shift y"] by simp
  next
    case 3
    have "nearest y = real_of_int (- 1) * 2 ^ (53 + shift y) / scale64"
      by (simp add: n 3 power_add)
    moreover have "\<bar>- 1::int\<bar> < 2 ^ 53" by simp
    ultimately show ?thesis using nearest_exact [of "- 1" "53 + shift y"] by simp
  qed
qed

text \<open>Rounding with overflow.\<close>

lemma huge64_pos [simp]: "0 < huge64"
  by (simp add: huge64_def)

lemma round64_Num_iff: "round64 y = Num v \<longleftrightarrow> v = nearest y \<and> \<bar>nearest y\<bar> < huge64"
  by (auto simp: round64_def Let_def)

lemma round64_PosInf_iff: "round64 y = PosInf \<longleftrightarrow> huge64 \<le> nearest y"
  by (simp add: round64_def Let_def)

lemma round64_NegInf_iff: "round64 y = NegInf \<longleftrightarrow> nearest y \<le> - huge64"
  by (auto simp: round64_def Let_def) (use huge64_pos in linarith)

lemma round64_not_NaN [simp]: "round64 y \<noteq> NaN"
  by (simp add: round64_def Let_def)

lemma round64_idem: "round64 y = Num v \<Longrightarrow> round64 v = Num v"
  by (simp add: round64_Num_iff nearest_idem)

lemma round64_exact:
  assumes "\<bar>m\<bar> < 2 ^ 53" and "\<bar>real_of_int m * 2 ^ j / scale64\<bar> < huge64"
  shows "round64 (of_int m * 2 ^ j / scale64) = Num (of_int m * 2 ^ j / scale64)"
  using assms(2) by (simp add: round64_Num_iff nearest_exact [OF assms(1)])

lemma round64_eval:
  assumes "\<bar>y\<bar> * scale64 < 2 ^ (53 + s)" and "s = 0 \<or> 2 ^ (52 + s) \<le> \<bar>y\<bar> * scale64"
    and "rne (y * scale64 / 2 ^ s) = M"
    and "\<bar>real_of_int M * 2 ^ s / scale64\<bar> < huge64"
  shows "round64 y = Num (of_int M * 2 ^ s / scale64)"
  using assms(4) by (simp add: round64_Num_iff nearest_eval [OF assms(1-3)])

lemma round64_zero [simp]: "round64 0 = Num 0"
  by (simp add: round64_Num_iff)

subsection \<open>The rounded values are closed under the operations\<close>

lemma is_float64_round64 [simp]: "is_float64 (round64 y)"
  by (cases "round64 y") (simp_all add: is_float64_def round64_idem)

lemma is_float64_specials [simp]: "is_float64 NaN" "is_float64 PosInf" "is_float64 NegInf"
  by (simp_all add: is_float64_def)

lemma is_float64_inf_of_sign [simp]: "is_float64 (inf_of_sign s)"
  by (simp add: inf_of_sign_def)

lemma round64_neg: "round64 (- y) = raw_neg (round64 y)"
  by (auto simp: round64_def Let_def nearest_neg) (use huge64_pos in linarith)+

lemma is_float64_neg [simp]: "is_float64 a \<Longrightarrow> is_float64 (raw_neg a)"
proof (cases a)
  case (Num x)
  assume "is_float64 a"
  with Num have "round64 x = Num x" by (simp add: is_float64_def)
  with round64_neg [of x] Num show ?thesis by (simp add: is_float64_def)
qed simp_all

lemma is_float64_add [simp]: "is_float64 (raw_add a b)"
  by (cases a; cases b) simp_all

lemma is_float64_mul [simp]: "is_float64 (raw_mul a b)"
  by (cases a; cases b) simp_all

lemma is_float64_zero [simp]: "is_float64 (Num 0)"
  by (simp add: is_float64_def)

lemma is_float64_div [simp]: "is_float64 a \<Longrightarrow> is_float64 (raw_div a b)"
  by (cases a; cases b) simp_all

subsection \<open>The operations on the type\<close>

lemma Rep_Abs: "is_float64 v \<Longrightarrow> Rep_float64 (Abs_float64 v) = v"
  by (simp add: Abs_float64_inverse)

text \<open>With these the operations can be run on constants.\<close>

lemma float64_abstype [code abstype]: "Abs_float64 (Rep_float64 x) = x"
  by (rule Rep_float64_inverse)

lemma fl_rep_eq [code abstract]: "Rep_float64 (fl c) = round64 c"
  by (simp add: fl_def Rep_Abs)

lemma nan_rep_eq [code abstract]: "Rep_float64 nan = NaN"
  by (simp add: nan_def Rep_Abs)

lemma pinf_rep_eq [code abstract]: "Rep_float64 pinf = PosInf"
  by (simp add: pinf_def Rep_Abs)

lemma ninf_rep_eq [code abstract]: "Rep_float64 ninf = NegInf"
  by (simp add: ninf_def Rep_Abs)

lemma Rep_valid [simp]: "is_float64 (Rep_float64 a)"
  using Rep_float64 [of a] by simp

lemma fadd_rep_eq [code abstract]:
  "Rep_float64 (fadd a b) = raw_add (Rep_float64 a) (Rep_float64 b)"
  by (simp add: fadd_def Rep_Abs)

lemma fsub_rep_eq [code abstract]:
  "Rep_float64 (fsub a b) = raw_sub (Rep_float64 a) (Rep_float64 b)"
  by (simp add: fsub_def Rep_Abs raw_sub_def)

lemma fmul_rep_eq [code abstract]:
  "Rep_float64 (fmul a b) = raw_mul (Rep_float64 a) (Rep_float64 b)"
  by (simp add: fmul_def Rep_Abs)

lemma fdiv_rep_eq [code abstract]:
  "Rep_float64 (fdiv a b) = raw_div (Rep_float64 a) (Rep_float64 b)"
  by (simp add: fdiv_def Rep_Abs)

lemmas fle_rep_eq = fle_def

lemmas flt_rep_eq = flt_def

lemmas is_nan_rep_eq = is_nan_def

lemmas is_finite_rep_eq = is_finite_def

subsection \<open>Facts about the operations\<close>

lemma round64_mono:
  assumes "y \<le> z"
  shows "raw_le (round64 y) (round64 z)"
  using nearest_mono [OF assms] huge64_pos
  by (auto simp: round64_def Let_def)

lemma round64_nonpos: "y \<le> 0 \<Longrightarrow> raw_le (round64 y) (Num 0)"
  using round64_mono [of y 0] by simp

lemma round64_nonneg: "0 \<le> y \<Longrightarrow> raw_le (Num 0) (round64 y)"
  using round64_mono [of 0 y] by simp

lemma Rep_Num: "Rep_float64 a = Num x \<Longrightarrow> round64 x = Num x"
  using Rep_valid [of a] by (simp add: is_float64_def)

lemma Rep_fl0 [simp]: "Rep_float64 (fl 0) = Num 0"
  by (simp add: fl_rep_eq)

lemmas rep_eqs = fle_rep_eq flt_rep_eq fadd_rep_eq fsub_rep_eq fmul_rep_eq fdiv_rep_eq
  is_nan_rep_eq is_finite_rep_eq raw_sub_def

text \<open>Order.\<close>

lemma fle_trans: "fle a b \<Longrightarrow> fle b c \<Longrightarrow> fle a c"
  by (cases "Rep_float64 a"; cases "Rep_float64 b"; cases "Rep_float64 c")
     (simp_all add: rep_eqs)

lemma fle_not_nan: "fle a b \<Longrightarrow> \<not> is_nan a \<and> \<not> is_nan b"
  by (cases "Rep_float64 a"; cases "Rep_float64 b") (simp_all add: rep_eqs)

lemma flt_not_nan: "flt a b \<Longrightarrow> \<not> is_nan a \<and> \<not> is_nan b"
  by (cases "Rep_float64 a"; cases "Rep_float64 b") (simp_all add: rep_eqs)

lemma flt_fle: "flt a b \<Longrightarrow> fle a b"
  by (cases "Rep_float64 a"; cases "Rep_float64 b") (simp_all add: rep_eqs)

lemma not_flt_fle: "\<not> is_nan a \<Longrightarrow> \<not> is_nan b \<Longrightarrow> \<not> flt a b \<Longrightarrow> fle b a"
  by (cases "Rep_float64 a"; cases "Rep_float64 b") (simp_all add: rep_eqs)

lemma fle_flt_False: "fle a b \<Longrightarrow> flt b a \<Longrightarrow> False"
  by (cases "Rep_float64 a"; cases "Rep_float64 b") (simp_all add: rep_eqs)

lemma fle_refl: "\<not> is_nan a \<Longrightarrow> fle a a"
  by (cases "Rep_float64 a") (simp_all add: rep_eqs)

lemma is_finite_between: "fle a c \<Longrightarrow> fle c b \<Longrightarrow> is_finite a \<Longrightarrow> is_finite b \<Longrightarrow> is_finite c"
  by (cases "Rep_float64 a"; cases "Rep_float64 b"; cases "Rep_float64 c")
     (simp_all add: rep_eqs)

lemma is_finite_fl0 [simp]: "is_finite (fl 0)"
  by (simp add: rep_eqs)

lemma is_finite_not_nan: "is_finite a \<Longrightarrow> \<not> is_nan a"
  by (cases "Rep_float64 a") (simp_all add: rep_eqs)

text \<open>Signs of differences, products and sums.\<close>

lemma fsub_nonpos: "fle l a \<Longrightarrow> is_nan (fsub l a) \<or> fle (fsub l a) (fl 0)"
  by (cases "Rep_float64 l"; cases "Rep_float64 a")
     (simp_all add: rep_eqs round64_nonpos)

lemma fsub_nonneg: "flt a l \<Longrightarrow> is_nan (fsub l a) \<or> fle (fl 0) (fsub l a)"
  by (cases "Rep_float64 l"; cases "Rep_float64 a")
     (simp_all add: rep_eqs round64_nonneg)

lemma fmul_nan: "is_nan d \<Longrightarrow> is_nan (fmul k d)"
  by (cases "Rep_float64 k") (simp_all add: rep_eqs)

lemma fmul_nonneg_nonpos:
  "fle (fl 0) k \<Longrightarrow> fle d (fl 0) \<Longrightarrow> is_nan (fmul k d) \<or> fle (fmul k d) (fl 0)"
  by (cases "Rep_float64 k"; cases "Rep_float64 d")
     (auto simp: rep_eqs inf_of_sign_def sgn_real_def mult_nonneg_nonpos round64_nonpos)

lemma fmul_nonneg_nonneg:
  "fle (fl 0) k \<Longrightarrow> fle (fl 0) d \<Longrightarrow> is_nan (fmul k d) \<or> fle (fl 0) (fmul k d)"
  by (cases "Rep_float64 k"; cases "Rep_float64 d")
     (auto simp: rep_eqs inf_of_sign_def sgn_real_def round64_nonneg)

lemma fadd_nonpos:
  assumes "is_finite c" and "fle s (fl 0)"
  shows "fle (fadd c s) c"
proof -
  from assms(1) obtain x where x: "Rep_float64 c = Num x"
    by (cases "Rep_float64 c") (simp_all add: rep_eqs)
  note e = Rep_Num [OF x]
  show ?thesis
  proof (cases "Rep_float64 s")
    case (Num t)
    with assms(2) have "x + t \<le> x" by (simp add: rep_eqs)
    from round64_mono [OF this] show ?thesis by (simp add: rep_eqs x Num e)
  qed (use assms(2) in \<open>simp_all add: rep_eqs x\<close>)
qed

lemma fadd_nonneg:
  assumes "is_finite c" and "fle (fl 0) s"
  shows "fle c (fadd c s)"
proof -
  from assms(1) obtain x where x: "Rep_float64 c = Num x"
    by (cases "Rep_float64 c") (simp_all add: rep_eqs)
  note e = Rep_Num [OF x]
  show ?thesis
  proof (cases "Rep_float64 s")
    case (Num t)
    with assms(2) have "x \<le> x + t" by (simp add: rep_eqs)
    from round64_mono [OF this] show ?thesis by (simp add: rep_eqs x Num e)
  qed (use assms(2) in \<open>simp_all add: rep_eqs x\<close>)
qed

text \<open>Where NaN cannot arise.\<close>

lemma fsub_finite_not_nan: "is_finite l \<Longrightarrow> \<not> is_nan a \<Longrightarrow> \<not> is_nan (fsub l a)"
  by (cases "Rep_float64 l"; cases "Rep_float64 a") (simp_all add: rep_eqs)

lemma fmul_finite_pos_not_nan:
  "is_finite k \<Longrightarrow> flt (fl 0) k \<Longrightarrow> \<not> is_nan d \<Longrightarrow> \<not> is_nan (fmul k d)"
  by (cases "Rep_float64 k"; cases "Rep_float64 d")
     (auto simp: rep_eqs inf_of_sign_def sgn_real_def)

subsection \<open>Values that need no rounding\<close>

lemma exactI:
  assumes "v = real_of_int m * 2 ^ j / scale64" and "\<bar>m\<bar> < 2 ^ 53" and "\<bar>v\<bar> < huge64"
  shows "exact v"
  unfolding exact_def assms(1)
  by (rule round64_exact [OF assms(2)]) (use assms(1,3) in simp)

lemma exact_of_int:
  assumes "\<bar>n\<bar> < 2 ^ 53"
  shows "exact (real_of_int n)"
proof (rule exactI [OF _ assms])
  show "real_of_int n = real_of_int n * 2 ^ 1074 / scale64" by (simp add: scale64_def)
  have "\<bar>real_of_int n\<bar> < 2 ^ 53" using assms
    by (metis of_int_abs of_int_less_numeral_power_cancel_iff)
  then show "\<bar>real_of_int n\<bar> < huge64" by (simp add: huge64_def)
qed

lemma exact_numeral [simp]: "(numeral k :: int) < 2 ^ 53 \<Longrightarrow> exact (numeral k)"
  using exact_of_int [of "numeral k"] by simp

lemma exact_neg_numeral [simp]: "(numeral k :: int) < 2 ^ 53 \<Longrightarrow> exact (- numeral k)"
  using exact_of_int [of "- numeral k"] by simp

lemma exact_0 [simp]: "exact 0"
  using exact_of_int [of 0] by simp

lemma exact_1 [simp]: "exact 1"
  using exact_of_int [of 1] by simp

lemma Rep_fl_exact: "exact x \<Longrightarrow> Rep_float64 (fl x) = Num x"
  by (simp add: fl_rep_eq exact_def)

lemma fl_round: "round64 y = Num v \<Longrightarrow> fl y = fl v \<and> exact v"
  by (simp add: Rep_float64_inject [symmetric] fl_rep_eq exact_def round64_idem)

lemma fadd_fl: "exact a \<Longrightarrow> exact b \<Longrightarrow> fadd (fl a) (fl b) = fl (a + b)"
  by (simp add: Rep_float64_inject [symmetric] rep_eqs Rep_fl_exact) (simp add: fl_rep_eq)

lemma fsub_fl: "exact a \<Longrightarrow> exact b \<Longrightarrow> fsub (fl a) (fl b) = fl (a - b)"
  by (simp add: Rep_float64_inject [symmetric] rep_eqs Rep_fl_exact) (simp add: fl_rep_eq)

lemma fmul_fl: "exact a \<Longrightarrow> exact b \<Longrightarrow> fmul (fl a) (fl b) = fl (a * b)"
  by (simp add: Rep_float64_inject [symmetric] rep_eqs Rep_fl_exact) (simp add: fl_rep_eq)

lemma fdiv_fl: "exact a \<Longrightarrow> exact b \<Longrightarrow> b \<noteq> 0 \<Longrightarrow> fdiv (fl a) (fl b) = fl (a / b)"
  by (simp add: Rep_float64_inject [symmetric] rep_eqs Rep_fl_exact) (simp add: fl_rep_eq)

lemma fle_fl: "exact a \<Longrightarrow> exact b \<Longrightarrow> fle (fl a) (fl b) = (a \<le> b)"
  by (simp add: rep_eqs Rep_fl_exact)

lemma flt_fl: "exact a \<Longrightarrow> exact b \<Longrightarrow> flt (fl a) (fl b) = (a < b)"
  by (simp add: rep_eqs Rep_fl_exact)

lemma fl_eq_iff: "exact a \<Longrightarrow> exact b \<Longrightarrow> (fl a = fl b) = (a = b)"
  by (simp add: Rep_float64_inject [symmetric] Rep_fl_exact)

lemma is_nan_fl [simp]: "\<not> is_nan (fl x)"
  by (simp add: rep_eqs fl_rep_eq)

lemma is_finite_fl: "exact x \<Longrightarrow> is_finite (fl x)"
  by (simp add: rep_eqs Rep_fl_exact)

lemmas fl_arith = fadd_fl fsub_fl fmul_fl fdiv_fl fle_fl flt_fl fl_eq_iff fge_def fgt_def

subsection \<open>A draw below 1, times 100\<close>

text \<open>
  The largest binary64 number below 1 is \<open>1 - 2 ^ -53\<close>, and its product with 100 rounds to
  the largest binary64 number below 100.
\<close>

lemma float_below_one:
  assumes "round64 q = Num q" and "q < 1"
  shows "q \<le> 1 - 1 / 2 ^ 53"
proof (rule ccontr)
  assume "\<not> q \<le> 1 - 1 / 2 ^ 53"
  then have lo: "1 - 1 / 2 ^ 53 < q" by simp
  then have q0: "0 < q" and half: "1 / 2 \<le> q" by simp_all
  have a: "\<bar>q\<bar> * scale64 < 2 ^ (53 + 1021)"
    using assms(2) q0 by (simp add: scale64_def)
  have b: "(1021::nat) = 0 \<or> 2 ^ (52 + 1021) \<le> \<bar>q\<bar> * scale64"
    using half q0 by (simp add: scale64_def)
  define M where "M = rne (q * scale64 / 2 ^ 1021)"
  from nearest_eval [OF a b, of M] have "nearest q = real_of_int M * 2 ^ 1021 / scale64"
    by (simp add: M_def)
  moreover from assms(1) have "nearest q = q" by (simp add: round64_Num_iff)
  ultimately have "q = real_of_int M * 2 ^ 1021 / scale64" by simp
  then have q: "q = real_of_int M / 2 ^ 53" by (simp add: scale64_def)
  from assms(2) have "real_of_int M < 2 ^ 53" unfolding q by (simp add: divide_less_eq)
  then have u: "M < 2 ^ 53" by (metis of_int_less_numeral_power_cancel_iff)
  from lo have "2 ^ 53 - 1 < real_of_int M" unfolding q by (simp add: less_divide_eq)
  then have "real_of_int (2 ^ 53 - 1) < real_of_int M" by simp
  then have "2 ^ 53 - 1 < M" by (simp only: of_int_less_iff)
  with u show False by simp
qed

lemma nearest_below_100:
  assumes "y \<le> (1 - 1 / 2 ^ 53) * 100"
  shows "nearest y < 100"
proof -
  let ?y0 = "(1 - 1 / 2 ^ 53) * (100::real)"
  have "nearest ?y0 = real_of_int (100 * 2 ^ 46 - 1) * 2 ^ 1028 / scale64"
    by (rule nearest_eval) (simp_all add: scale64_def rne_def)
  also have "\<dots> < 100" by (simp add: scale64_def)
  finally show ?thesis using nearest_mono [OF assms] by simp
qed

lemma Rep_fl1 [simp]: "Rep_float64 (fl 1) = Num 1"
  by (simp add: Rep_fl_exact)

lemma Rep_fl100 [simp]: "Rep_float64 (fl 100) = Num 100"
  by (simp add: Rep_fl_exact)

lemma draw_below_100:
  assumes "flt f (fl 1)"
  shows "flt (fmul f (fl 100)) (fl 100)"
proof (cases "Rep_float64 f")
  case (Num q)
  from assms Num have "q < 1" by (simp add: rep_eqs)
  from float_below_one [OF Rep_Num [OF Num] this]
  have "q * 100 \<le> (1 - 1 / 2 ^ 53) * 100" by simp
  from nearest_below_100 [OF this] have "nearest (q * 100) < 100" .
  moreover have "(100::real) < huge64" by (simp add: huge64_def)
  ultimately show ?thesis
    by (simp add: rep_eqs Num round64_def Let_def)
qed (use assms in \<open>simp_all add: rep_eqs inf_of_sign_def\<close>)

lemma draw_nonneg:
  assumes "fle (fl 0) f"
  shows "fle (fl 0) (fmul f (fl 100))"
proof (cases "Rep_float64 f")
  case (Num q)
  from assms Num have "0 \<le> q * 100" by (simp add: rep_eqs)
  from round64_nonneg [OF this] show ?thesis by (simp add: rep_eqs Num)
qed (use assms in \<open>simp_all add: rep_eqs inf_of_sign_def\<close>)

subsection \<open>The infinities and NaN as values\<close>

lemma exact_half [simp]: "exact (1 / 2)"
  by (rule exactI [of _ 1 1073]) (simp_all add: scale64_def huge64_def)

lemma fl_overflow:
  assumes "huge64 \<le> y"
  shows "fl y = pinf"
proof -
  have "nearest huge64 = huge64"
    using nearest_exact [of 1 2098] by (simp add: huge64_def scale64_def)
  with nearest_mono [OF assms] have "huge64 \<le> nearest y" by simp
  then show ?thesis
    by (simp add: Rep_float64_inject [symmetric] fl_rep_eq pinf_rep_eq round64_PosInf_iff)
qed

lemma fdiv_pinf: "exact b \<Longrightarrow> 0 < b \<Longrightarrow> fdiv pinf (fl b) = pinf"
  by (simp add: Rep_float64_inject [symmetric] rep_eqs pinf_rep_eq Rep_fl_exact)

lemma fle_pinf: "fle (fl a) pinf"
  by (cases "Rep_float64 (fl a)") (simp_all add: rep_eqs pinf_rep_eq fl_rep_eq)

lemma fsub_pinf: "exact a \<Longrightarrow> fsub (fl a) pinf = ninf"
  by (simp add: Rep_float64_inject [symmetric] rep_eqs pinf_rep_eq ninf_rep_eq Rep_fl_exact)

lemma fmul_zero_ninf: "fmul (fl 0) ninf = nan"
  by (simp add: Rep_float64_inject [symmetric] rep_eqs ninf_rep_eq nan_rep_eq inf_of_sign_def)

lemma fadd_nan: "fadd a nan = nan"
  by (cases "Rep_float64 a") (simp_all add: Rep_float64_inject [symmetric] rep_eqs nan_rep_eq)

lemma nan_compare [simp]: "\<not> flt nan a" "\<not> flt a nan" "\<not> fle nan a" "\<not> fle a nan"
  by (cases "Rep_float64 a"; simp add: rep_eqs nan_rep_eq)+

lemma is_nan_nan [simp]: "is_nan nan"
  by (simp add: rep_eqs nan_rep_eq)

section \<open>Basic facts\<close>

text \<open>The equations that run the model on a concrete schedule.\<close>

lemmas run_defs = Start_def New_def NewTicker_def StorePointer_r_def LoadPointer_r_def
  Println_def StopTicker_def deferred_def float64_of_int_def Let_def

lemmas run_arith = run_defs fl_arith

lemma Load_Store [simp]: "LoadPointer_r (StorePointer_r w v) = Some v"
  by (simp add: LoadPointer_r_def StorePointer_r_def)

lemma thr_Store [simp]: "thr (StorePointer_r w v) = (thr w)\<lparr>r := Some (fresh w)\<rparr>"
  by (simp add: StorePointer_r_def)

lemma fresh_Store [simp]: "fresh (StorePointer_r w v) = Suc (fresh w)"
  by (simp add: StorePointer_r_def)

lemma tickers_Store [simp]: "tickers (StorePointer_r w v) = tickers w"
  by (simp add: StorePointer_r_def)

lemma logged_Store [simp]: "logged (StorePointer_r w v) = logged w"
  by (simp add: StorePointer_r_def)

lemma Load_frame: "r (thr w') = r (thr w) \<Longrightarrow> heap w' = heap w \<Longrightarrow> LoadPointer_r w' = LoadPointer_r w"
  by (simp add: LoadPointer_r_def split: option.split)

lemma Println_frame [simp]:
  "thr (Println w l) = thr w" "heap (Println w l) = heap w" "fresh (Println w l) = fresh w"
  "tickers (Println w l) = tickers w"
  by (simp_all add: Println_def)

lemma Load_Println [simp]: "LoadPointer_r (Println w l) = LoadPointer_r w"
  by (rule Load_frame) simp_all

lemma StopTicker_frame [simp]:
  "thr (StopTicker w k) = thr w" "heap (StopTicker w k) = heap w"
  "fresh (StopTicker w k) = fresh w"
  by (simp_all add: StopTicker_def)

lemma Load_StopTicker [simp]: "LoadPointer_r (StopTicker w k) = LoadPointer_r w"
  by (rule Load_frame) simp_all

lemma Load_deferred [simp]: "LoadPointer_r (deferred w) = LoadPointer_r w"
  by (rule Load_frame) (simp_all add: deferred_def)

lemma Load_started [simp]:
  "LoadPointer_r (w\<lparr>thr := (thr w)\<lparr>started := b\<rparr>\<rparr>) = LoadPointer_r w"
  by (simp add: LoadPointer_r_def split: option.split)

lemma world_of_run_deferred [simp]:
  "LoadPointer_r (world_of (run_deferred out)) = LoadPointer_r (world_of out)"
  by (cases out) simp_all

section \<open>The evaluation tick\<close>

lemma ItkTick_empty:
  "stats lv = [] \<Longrightarrow> select_case w lv ItkTick = Continue (Println w NoStatsCollected) lv"
  by simp

lemma ItkTick_nonempty:
  assumes "stats lv \<noteq> []" and "LoadPointer_r w = Some cur"
  shows "select_case w lv ItkTick =
           Continue (case spec_write (L (thr w)) (K (thr w)) cur (stats lv) of
                       None \<Rightarrow> w
                     | Some v \<Rightarrow> StorePointer_r w v)
                    (lv\<lparr>stats := []\<rparr>)"
  using assms by (simp add: Let_def spec_write_def window_avg_def)

lemma spec_write_range:
  assumes "fle (fl 0) k" and "fle (fl 0) cur" and "fle cur (fl 100)"
    and "step_defined l k xs" and "spec_write l k cur xs = Some v"
  shows "fle (fl 0) v \<and> fle v (fl 100)"
proof -
  let ?avg = "window_avg xs"
  let ?d = "fsub l ?avg"
  let ?step = "fmul k ?d"
  let ?n = "fadd cur ?step"
  have fin: "is_finite cur"
    by (rule is_finite_between [OF assms(2,3)]) (simp_all add: is_finite_fl)
  have z: "fle (fl 0) (fl 100)" by (simp add: fl_arith)
  show ?thesis
  proof (cases "fge ?avg l")
    case True
    then have la: "fle l ?avg" by (simp add: fge_def)
    with fle_not_nan have "\<not> is_nan ?avg" by blast
    with assms(4) have sn: "\<not> is_nan ?step" by (simp add: step_defined_def)
    with fmul_nan have "\<not> is_nan ?d" by blast
    with fsub_nonpos [OF la] have "fle ?d (fl 0)" by simp
    from fmul_nonneg_nonpos [OF assms(1) this] sn have "fle ?step (fl 0)" by simp
    from fadd_nonpos [OF fin this] have n: "fle ?n cur" .
    from assms(5) True have v: "v = (if flt ?n (fl 0) then fl 0 else ?n)"
      by (simp add: spec_write_def Let_def)
    show ?thesis
    proof (cases "flt ?n (fl 0)")
      case True
      with v z show ?thesis by (simp add: fl_arith)
    next
      case False
      from n fle_not_nan have "\<not> is_nan ?n" by blast
      from not_flt_fle [OF this _ False] have "fle (fl 0) ?n" by simp
      moreover from n assms(3) have "fle ?n (fl 100)" by (rule fle_trans)
      ultimately show ?thesis using v False by simp
    qed
  next
    case False
    show ?thesis
    proof (cases "flt ?avg l")
      case lt: True
      with flt_not_nan have "\<not> is_nan ?avg" by blast
      with assms(4) have sn: "\<not> is_nan ?step" by (simp add: step_defined_def)
      with fmul_nan have "\<not> is_nan ?d" by blast
      with fsub_nonneg [OF lt] have "fle (fl 0) ?d" by simp
      from fmul_nonneg_nonneg [OF assms(1) this] sn have "fle (fl 0) ?step" by simp
      from fadd_nonneg [OF fin this] have n: "fle cur ?n" .
      from assms(5) False lt have v: "v = (if fgt ?n (fl 100) then fl 100 else ?n)"
        by (simp add: spec_write_def Let_def)
      show ?thesis
      proof (cases "fgt ?n (fl 100)")
        case True
        with v z show ?thesis by (simp add: fl_arith)
      next
        case ng: False
        from n fle_not_nan have "\<not> is_nan ?n" by blast
        from not_flt_fle [OF _ this] ng have "fle ?n (fl 100)" by (simp add: fgt_def)
        moreover from assms(2) n have "fle (fl 0) ?n" by (rule fle_trans)
        ultimately show ?thesis using v ng by simp
      qed
    next
      case False
      with \<open>\<not> fge ?avg l\<close> assms(5) show ?thesis by (simp add: spec_write_def Let_def)
    qed
  qed
qed

lemma spec_write_decreases:
  assumes "fle (fl 0) k" and "fle (fl 0) cur" and "fle cur (fl 100)"
    and "step_defined l k xs" and "mean_at_or_above l xs"
  shows "\<exists>v. spec_write l k cur xs = Some v \<and> fle (fl 0) v \<and> fle v cur"
proof -
  let ?avg = "window_avg xs"
  let ?d = "fsub l ?avg"
  let ?step = "fmul k ?d"
  let ?n = "fadd cur ?step"
  have fin: "is_finite cur"
    by (rule is_finite_between [OF assms(2,3)]) (simp_all add: is_finite_fl)
  from assms(5) have ge: "fge ?avg l" by (simp add: mean_at_or_above_def)
  then have la: "fle l ?avg" by (simp add: fge_def)
  with fle_not_nan have "\<not> is_nan ?avg" by blast
  with assms(4) have sn: "\<not> is_nan ?step" by (simp add: step_defined_def)
  with fmul_nan have "\<not> is_nan ?d" by blast
  with fsub_nonpos [OF la] have "fle ?d (fl 0)" by simp
  from fmul_nonneg_nonpos [OF assms(1) this] sn have "fle ?step (fl 0)" by simp
  from fadd_nonpos [OF fin this] have n: "fle ?n cur" .
  have v: "spec_write l k cur xs = Some (if flt ?n (fl 0) then fl 0 else ?n)"
    using ge by (simp add: spec_write_def Let_def)
  show ?thesis
  proof (cases "flt ?n (fl 0)")
    case True
    with v assms(2) show ?thesis by (simp add: fl_arith)
  next
    case False
    from n fle_not_nan have "\<not> is_nan ?n" by blast
    from not_flt_fle [OF this _ False] have "fle (fl 0) ?n" by simp
    with v False n show ?thesis by simp
  qed
qed

lemma step_defined_finite_positive:
  assumes "is_finite l" and "is_finite k" and "flt (fl 0) k"
  shows "step_defined l k xs"
proof (cases "is_nan (window_avg xs)")
  case True
  then show ?thesis by (simp add: step_defined_def)
next
  case False
  from fsub_finite_not_nan [OF assms(1) False]
  have "\<not> is_nan (fsub l (window_avg xs))" .
  from fmul_finite_pos_not_nan [OF assms(2,3) this] show ?thesis
    by (simp add: step_defined_def)
qed

section \<open>What one turn of the loop keeps\<close>

lemma select_case_Continue_thr:
  assumes "select_case w lv e = Continue w' lv'"
  shows "L (thr w') = L (thr w) \<and> K (thr w') = K (thr w)
       \<and> started (thr w') = started (thr w) \<and> done_ch (thr w') = done_ch (thr w)
       \<and> (r (thr w) \<noteq> None \<longrightarrow> r (thr w') \<noteq> None)"
  using assms
  by (cases e) (auto simp: Let_def split: option.splits if_splits)

lemma select_case_no_Return:
  "done_ch (thr w) = None \<Longrightarrow> select_case w lv e \<noteq> Return err w'"
  by (cases e) (auto simp: Let_def split: option.splits if_splits)

lemma select_case_no_Panic:
  "r (thr w) \<noteq> None \<Longrightarrow> select_case w lv e \<noteq> Panic p w'"
  by (cases e) (auto simp: Let_def LoadPointer_r_def split: option.splits if_splits)

lemma select_case_no_ItkTick:
  assumes "e \<noteq> ItkTick"
  shows "case select_case w lv e of
           Continue w' lv' \<Rightarrow> LoadPointer_r w' = LoadPointer_r w
         | Return err w' \<Rightarrow> LoadPointer_r w' = LoadPointer_r w
         | Panic p w' \<Rightarrow> LoadPointer_r w' = LoadPointer_r w"
  using assms by (cases e) (auto split: option.splits)

lemma loop_append:
  "loop w lv (evs @ es) =
     (case loop w lv evs of
        Blocked w' lv' \<Rightarrow> loop w' lv' es
      | Returned err w' \<Rightarrow> Returned err w'
      | Panicked p w' \<Rightarrow> Panicked p w')"
  by (induction evs arbitrary: w lv) (auto split: iteration.splits)

lemma loop_nil_done_Blocked:
  assumes "done_ch (thr w) = None" and "r (thr w) \<noteq> None"
  shows "\<exists>w' lv'. loop w lv evs = Blocked w' lv'
           \<and> started (thr w') = started (thr w) \<and> done_ch (thr w') = None
           \<and> r (thr w') \<noteq> None"
  using assms
proof (induction evs arbitrary: w lv)
  case Nil
  then show ?case by simp
next
  case (Cons e evs)
  show ?case
  proof (cases "select_case w lv e")
    case (Continue w1 lv1)
    from select_case_Continue_thr [OF Continue] Cons.prems
    have k: "done_ch (thr w1) = None" "r (thr w1) \<noteq> None"
      "started (thr w1) = started (thr w)" by simp_all
    from Cons.IH [OF k(1,2), of lv1] k(3) Continue show ?thesis by auto
  next
    case (Return err w1)
    with select_case_no_Return [OF Cons.prems(1)] show ?thesis by blast
  next
    case (Panic p w1)
    with select_case_no_Panic [OF Cons.prems(2)] show ?thesis by blast
  qed
qed

lemma loop_no_ItkTick:
  "ItkTick \<notin> set evs \<Longrightarrow> LoadPointer_r (world_of (loop w lv evs)) = LoadPointer_r w"
proof (induction evs arbitrary: w lv)
  case Nil
  then show ?case by simp
next
  case (Cons e evs)
  then have ne: "e \<noteq> ItkTick" and rest: "ItkTick \<notin> set evs" by auto
  from select_case_no_ItkTick [OF ne, of w lv] Cons.IH [OF rest]
  show ?case by (auto split: iteration.splits)
qed

section \<open>Entering the loop\<close>

lemma Start_started: "started (thr w) \<Longrightarrow> Start w evs = Returned (Some ErrAlreadyStarted) w"
  by (simp add: Start_def)

lemma Start_fresh_cases:
  assumes "\<not> started (thr w)"
  obtains (ticker_panic) w' where
      "\<And>evs. Start w evs = Panicked NonPositiveTickerInterval w'"
      "LoadPointer_r w' = Some (fl 100)"
      "thr w' = (thr w)\<lparr>started := True, r := Some (fresh w)\<rparr>"
      "interval (thr w) \<le> 0 \<or> intervalStep (thr w) \<le> 0"
    | (running) w' lv where
      "\<And>evs. Start w evs = run_deferred (loop w' lv evs)"
      "LoadPointer_r w' = Some (fl 100)"
      "thr w' = (thr w)\<lparr>started := True, r := Some (fresh w)\<rparr>"
      "stats lv = []"
      "0 < interval (thr w)" "0 < intervalStep (thr w)"
      "tickers w' = tickers w @ [True, True]"
      "itk lv = length (tickers w)" "istk lv = Suc (length (tickers w))"
proof (cases "interval (thr w) \<le> 0")
  case True
  show ?thesis
  proof (rule ticker_panic)
    show "\<And>evs. Start w evs = Panicked NonPositiveTickerInterval
        (StorePointer_r (w\<lparr>thr := (thr w)\<lparr>started := True\<rparr>\<rparr>) (fl 100))"
      using assms True by (simp add: Start_def NewTicker_def Let_def)
  qed (use True in simp_all)
next
  case False
  note i = this
  show ?thesis
  proof (cases "intervalStep (thr w) \<le> 0")
    case True
    show ?thesis
    proof (rule ticker_panic)
      show "\<And>evs. Start w evs = Panicked NonPositiveTickerInterval
        ((StorePointer_r (w\<lparr>thr := (thr w)\<lparr>started := True\<rparr>\<rparr>) (fl 100))
           \<lparr>tickers := tickers w @ [True]\<rparr>)"
        using assms True i by (simp add: Start_def NewTicker_def Let_def)
    qed (use True in \<open>simp_all add: LoadPointer_r_def StorePointer_r_def\<close>)
  next
    case False
    show ?thesis
    proof (rule running)
      show "\<And>evs. Start w evs = run_deferred (loop
        ((StorePointer_r (w\<lparr>thr := (thr w)\<lparr>started := True\<rparr>\<rparr>) (fl 100))
           \<lparr>tickers := tickers w @ [True, True]\<rparr>)
        \<lparr>itk = length (tickers w), istk = Suc (length (tickers w)), stats = []\<rparr> evs)"
        using assms False i by (simp add: Start_def NewTicker_def Let_def)
    qed (use False i in \<open>simp_all add: LoadPointer_r_def StorePointer_r_def\<close>)
  qed
qed

section \<open>The windows of a schedule and the buffer of the loop\<close>

lemma select_case_windows:
  assumes "list_all P (windows (stats lv) (e # es))"
  shows "case select_case w lv e of
           Continue w' lv' \<Rightarrow> list_all P (windows (stats lv') es)
         | Return err w' \<Rightarrow> True
         | Panic p w' \<Rightarrow> True"
proof (cases e)
  case StopSend
  then show ?thesis using assms by (simp split: option.split)
next
  case ItkTick
  then show ?thesis using assms by (auto simp: Let_def split: option.split if_splits)
next
  case (IstkTick x err)
  then show ?thesis using assms by (cases err) simp_all
qed

lemma windows_head:
  "list_all P (windows buf (ItkTick # es)) \<Longrightarrow> buf \<noteq> [] \<Longrightarrow> P buf"
  by simp

lemma windows_append:
  "windows buf (evs @ es) = windows buf evs @ windows (buffer_after buf evs) es"
  by (induction buf evs rule: windows.induct) simp_all

lemma select_case_buffer:
  "select_case w lv e = Continue w' lv' \<Longrightarrow> stats lv' = buffer_after (stats lv) [e]"
  by (cases e) (auto simp: Let_def split: option.splits if_splits)

lemma buffer_after_Cons: "buffer_after buf (e # es) = buffer_after (buffer_after buf [e]) es"
proof (cases e)
  case (IstkTick x err)
  then show ?thesis by (cases err) simp_all
qed simp_all

lemma loop_Blocked_buffer:
  "loop w lv evs = Blocked w' lv' \<Longrightarrow> stats lv' = buffer_after (stats lv) evs"
proof (induction evs arbitrary: w lv)
  case Nil
  then show ?case by simp
next
  case (Cons e evs)
  from Cons.prems obtain w1 lv1 where s: "select_case w lv e = Continue w1 lv1"
    and l: "loop w1 lv1 evs = Blocked w' lv'"
    by (auto split: iteration.splits)
  from Cons.IH [OF l] select_case_buffer [OF s] show ?case
    by (simp add: buffer_after_Cons [of "stats lv" e evs])
qed

lemma loop_Blocked_thr:
  "loop w lv evs = Blocked w' lv' \<Longrightarrow> L (thr w') = L (thr w) \<and> K (thr w') = K (thr w)"
proof (induction evs arbitrary: w lv)
  case Nil
  then show ?case by simp
next
  case (Cons e evs)
  from Cons.prems obtain w1 lv1 where s: "select_case w lv e = Continue w1 lv1"
    and l: "loop w1 lv1 evs = Blocked w' lv'"
    by (auto split: iteration.splits)
  from Cons.IH [OF l] select_case_Continue_thr [OF s] show ?case by simp
qed

section \<open>The rate stays in range\<close>

lemma rate_in_range_Store:
  "fle (fl 0) v \<Longrightarrow> fle v (fl 100) \<Longrightarrow> rate_in_range (StorePointer_r w v)"
  by (simp add: rate_in_range_def)

lemma rate_in_range_cong:
  "LoadPointer_r w' = LoadPointer_r w \<Longrightarrow> rate_in_range w' = rate_in_range w"
  by (simp add: rate_in_range_def)

lemma rate_in_range_100: "LoadPointer_r w = Some (fl 100) \<Longrightarrow> rate_in_range w"
  by (simp add: rate_in_range_def fl_arith)

lemma select_case_range:
  assumes "fle (fl 0) (K (thr w))" and "rate_in_range w"
    and "list_all (step_defined (L (thr w)) (K (thr w))) (windows (stats lv) (e # es))"
  shows "case select_case w lv e of
           Continue w' lv' \<Rightarrow> rate_in_range w'
         | Return err w' \<Rightarrow> rate_in_range w'
         | Panic p w' \<Rightarrow> rate_in_range w'"
proof (cases e)
  case StopSend
  then show ?thesis using assms(2)
    by (simp add: rate_in_range_cong [of "StopTicker (StopTicker w (istk lv)) (itk lv)" w]
             split: option.split)
next
  case ItkTick
  show ?thesis
  proof (cases "stats lv = []")
    case True
    then show ?thesis using assms(2) ItkTick
      by (simp add: rate_in_range_cong [of "Println w NoStatsCollected" w])
  next
    case False
    from assms(2) obtain cur where cur: "LoadPointer_r w = Some cur"
      "fle (fl 0) cur" "fle cur (fl 100)"
      by (auto simp: rate_in_range_def split: option.splits)
    from assms(3) ItkTick False
    have sd: "step_defined (L (thr w)) (K (thr w)) (stats lv)" by simp
    show ?thesis
    proof (cases "spec_write (L (thr w)) (K (thr w)) cur (stats lv)")
      case None
      then show ?thesis using assms(2)
        by (simp del: select_case.simps add: ItkTick ItkTick_nonempty [OF False cur(1)])
    next
      case (Some v)
      from spec_write_range [OF assms(1) cur(2,3) sd Some] show ?thesis
        by (simp del: select_case.simps
                 add: ItkTick ItkTick_nonempty [OF False cur(1)] Some rate_in_range_Store)
    qed
  qed
next
  case (IstkTick x err)
  then show ?thesis using assms(2)
    by (simp add: rate_in_range_cong [of "Println w (CpuStatsFailed _)" w]
             split: option.split)
qed

lemma loop_range:
  assumes "fle (fl 0) (K (thr w))" and "rate_in_range w"
    and "list_all (step_defined (L (thr w)) (K (thr w))) (windows (stats lv) evs)"
  shows "rate_in_range (world_of (loop w lv evs))"
  using assms
proof (induction evs arbitrary: w lv)
  case Nil
  then show ?case by simp
next
  case (Cons e evs)
  note r = select_case_range [OF Cons.prems]
  note ws = select_case_windows [OF Cons.prems(3), of w]
  show ?case
  proof (cases "select_case w lv e")
    case (Continue w1 lv1)
    from select_case_Continue_thr [OF Continue]
    have same: "L (thr w1) = L (thr w)" "K (thr w1) = K (thr w)" by simp_all
    have p1: "fle (fl 0) (K (thr w1))" using same Cons.prems(1) by simp
    have p2: "rate_in_range w1" using r Continue by simp
    have p3: "list_all (step_defined (L (thr w1)) (K (thr w1))) (windows (stats lv1) evs)"
      using ws Continue same by simp
    from Cons.IH [OF p1 p2 p3] Continue show ?thesis by simp
  next
    case (Return err w1)
    with r show ?thesis by simp
  next
    case (Panic p w1)
    with r show ?thesis by simp
  qed
qed

lemma New_fields [simp]:
  "L (thr (New cpuLimit k i s)) = cpuLimit"
  "K (thr (New cpuLimit k i s)) = k"
  "interval (thr (New cpuLimit k i s)) = i"
  "intervalStep (thr (New cpuLimit k i s)) = s"
  "done_ch (thr (New cpuLimit k i s)) = None"
  "started (thr (New cpuLimit k i s)) = False"
  "r (thr (New cpuLimit k i s)) = Some 0"
  "LoadPointer_r (New cpuLimit k i s) = Some (fl 100)"
  "tickers (New cpuLimit k i s) = []"
  by (simp_all add: New_def)

lemma Start_range:
  assumes "fle (fl 0) (K (thr w))" and "\<not> started (thr w)"
    and "list_all (step_defined (L (thr w)) (K (thr w))) (windows [] evs)"
  shows "rate_in_range (world_of (Start w evs))"
  using assms(2)
proof (cases rule: Start_fresh_cases)
  case (ticker_panic w')
  then show ?thesis by (simp add: rate_in_range_100)
next
  case (running w' lv)
  have a: "rate_in_range w'" using running(2) by (rule rate_in_range_100)
  have b: "fle (fl 0) (K (thr w'))" using running(3) assms(1) by simp
  have c: "list_all (step_defined (L (thr w')) (K (thr w'))) (windows (stats lv) evs)"
    using running(3,4) assms(3) by simp
  have "rate_in_range (world_of (loop w' lv evs))" by (rule loop_range [OF b a c])
  then show ?thesis
    by (simp add: running(1) rate_in_range_cong [OF world_of_run_deferred])
qed

lemma finite_positive_steps:
  assumes "is_finite l" and "is_finite k" and "flt (fl 0) k"
  shows "fle (fl 0) k \<and> list_all (step_defined l k) ws"
  using step_defined_finite_positive [OF assms] flt_fle [OF assms(3)]
  by (simp add: list_all_iff)

section \<open>Windows whose mean is at or above the limit\<close>

lemma select_case_decreases:
  assumes "fle (fl 0) (K (thr w))" and "LoadPointer_r w = Some v"
    and "fle (fl 0) v" and "fle v (fl 100)"
    and "list_all (step_defined (L (thr w)) (K (thr w))) (windows (stats lv) (e # es))"
    and "list_all (mean_at_or_above (L (thr w))) (windows (stats lv) (e # es))"
  shows "case select_case w lv e of
           Continue w' lv' \<Rightarrow> \<exists>v'. LoadPointer_r w' = Some v' \<and> fle (fl 0) v' \<and> fle v' v
         | Return err w' \<Rightarrow> LoadPointer_r w' = Some v
         | Panic p w' \<Rightarrow> LoadPointer_r w' = Some v"
proof -
  from assms(3) fle_not_nan have "\<not> is_nan v" by blast
  then have vv: "fle v v" by (rule fle_refl)
  show ?thesis
  proof (cases e)
    case StopSend
    then show ?thesis using assms(2,3) vv by (simp split: option.split)
  next
    case ItkTick
    show ?thesis
    proof (cases "stats lv = []")
      case True
      then show ?thesis using assms(2,3) vv ItkTick by simp
    next
      case False
      from assms(5) ItkTick False
      have sd: "step_defined (L (thr w)) (K (thr w)) (stats lv)" by simp
      from assms(6) ItkTick False
      have ma: "mean_at_or_above (L (thr w)) (stats lv)" by simp
      from spec_write_decreases [OF assms(1,3,4) sd ma]
      obtain v' where "spec_write (L (thr w)) (K (thr w)) v (stats lv) = Some v'"
        "fle (fl 0) v'" "fle v' v" by blast
      then show ?thesis
        by (simp del: select_case.simps add: ItkTick ItkTick_nonempty [OF False assms(2)])
    qed
  next
    case (IstkTick x err)
    then show ?thesis using assms(2,3) vv by (cases err) simp_all
  qed
qed

lemma loop_decreases:
  assumes "fle (fl 0) (K (thr w))" and "LoadPointer_r w = Some v"
    and "fle (fl 0) v" and "fle v (fl 100)"
    and "list_all (step_defined (L (thr w)) (K (thr w))) (windows (stats lv) evs)"
    and "list_all (mean_at_or_above (L (thr w))) (windows (stats lv) evs)"
  shows "\<exists>v'. LoadPointer_r (world_of (loop w lv evs)) = Some v'
           \<and> fle (fl 0) v' \<and> fle v' v"
  using assms
proof (induction evs arbitrary: w lv v)
  case Nil
  from Nil(3) fle_not_nan have "\<not> is_nan v" by blast
  then have "fle v v" by (rule fle_refl)
  with Nil show ?case by simp
next
  case (Cons e evs)
  note step = select_case_decreases [OF Cons.prems]
  note w5 = select_case_windows [OF Cons.prems(5), of w]
  note w6 = select_case_windows [OF Cons.prems(6), of w]
  show ?case
  proof (cases "select_case w lv e")
    case (Continue w1 lv1)
    from select_case_Continue_thr [OF Continue]
    have same: "L (thr w1) = L (thr w)" "K (thr w1) = K (thr w)" by simp_all
    from step Continue obtain v1 where v1: "LoadPointer_r w1 = Some v1"
      "fle (fl 0) v1" "fle v1 v" by auto
    have p1: "fle (fl 0) (K (thr w1))" using same Cons.prems(1) by simp
    have p4: "fle v1 (fl 100)" using v1(3) Cons.prems(4) by (rule fle_trans)
    have p5: "list_all (step_defined (L (thr w1)) (K (thr w1))) (windows (stats lv1) evs)"
      using w5 Continue same by simp
    have p6: "list_all (mean_at_or_above (L (thr w1))) (windows (stats lv1) evs)"
      using w6 Continue same by simp
    from Cons.IH [OF p1 v1(1,2) p4 p5 p6]
    obtain v' where v': "LoadPointer_r (world_of (loop w1 lv1 evs)) = Some v'"
      "fle (fl 0) v'" "fle v' v1" by blast
    have "fle v' v" using v'(3) v1(3) by (rule fle_trans)
    with v'(1,2) Continue show ?thesis by simp
  next
    case (Return err w1)
    from Cons.prems(3) fle_not_nan have "\<not> is_nan v" by blast
    then have "fle v v" by (rule fle_refl)
    with step Return Cons.prems(3) show ?thesis by simp
  next
    case (Panic p w1)
    from Cons.prems(3) fle_not_nan have "\<not> is_nan v" by blast
    then have "fle v v" by (rule fle_refl)
    with step Panic Cons.prems(3) show ?thesis by simp
  qed
qed

lemma Start_decreases:
  assumes "fle (fl 0) (K (thr w))" and "\<not> started (thr w)"
    and "list_all (step_defined (L (thr w)) (K (thr w))) (windows [] (evs @ es))"
    and "list_all (mean_at_or_above (L (thr w))) (windows [] (evs @ es))"
  shows "\<exists>v v'. LoadPointer_r (world_of (Start w evs)) = Some v
           \<and> LoadPointer_r (world_of (Start w (evs @ es))) = Some v'
           \<and> fle (fl 0) v' \<and> fle v' v"
  using assms(2)
proof (cases rule: Start_fresh_cases)
  case (ticker_panic w')
  then show ?thesis by (simp add: fl_arith)
next
  case (running w' lv)
  have k: "fle (fl 0) (K (thr w'))" and l: "L (thr w') = L (thr w)"
    and kk: "K (thr w') = K (thr w)"
    using running(3) assms(1) by simp_all
  have z: "fle (fl 0) (fl 100)" "fle (fl 100) (fl 100)" by (simp_all add: fl_arith)
  from assms(3) have s1: "list_all (step_defined (L (thr w')) (K (thr w'))) (windows (stats lv) evs)"
    and s2: "list_all (step_defined (L (thr w')) (K (thr w')))
               (windows (buffer_after (stats lv) evs) es)"
    by (simp_all add: windows_append l kk running(4))
  from assms(4) have m1: "list_all (mean_at_or_above (L (thr w'))) (windows (stats lv) evs)"
    and m2: "list_all (mean_at_or_above (L (thr w'))) (windows (buffer_after (stats lv) evs) es)"
    by (simp_all add: windows_append l running(4))
  from loop_decreases [OF k running(2) z s1 m1]
  obtain v where v: "LoadPointer_r (world_of (loop w' lv evs)) = Some v"
    "fle (fl 0) v" "fle v (fl 100)" by blast
  from v(2) fle_not_nan have "\<not> is_nan v" by blast
  then have vv: "fle v v" by (rule fle_refl)
  show ?thesis
  proof (cases "loop w' lv evs")
    case (Blocked w1 lv1)
    from loop_Blocked_thr [OF Blocked] loop_Blocked_buffer [OF Blocked]
    have i1: "L (thr w1) = L (thr w')" "K (thr w1) = K (thr w')"
      "stats lv1 = buffer_after (stats lv) evs" by simp_all
    from v(1) Blocked have v1: "LoadPointer_r w1 = Some v" by simp
    have q1: "fle (fl 0) (K (thr w1))" using k i1 by simp
    have q5: "list_all (step_defined (L (thr w1)) (K (thr w1))) (windows (stats lv1) es)"
      using s2 i1 by simp
    have q6: "list_all (mean_at_or_above (L (thr w1))) (windows (stats lv1) es)"
      using m2 i1 by simp
    from loop_decreases [OF q1 v1 v(2,3) q5 q6]
    obtain v' where "LoadPointer_r (world_of (loop w1 lv1 es)) = Some v'"
      "fle (fl 0) v'" "fle v' v" by blast
    with v(1) Blocked show ?thesis
      by (simp add: running(1) loop_append)
  next
    case (Returned err w1)
    with v vv show ?thesis by (simp add: running(1) loop_append)
  next
    case (Panicked p w1)
    with v vv show ?thesis by (simp add: running(1) loop_append)
  qed
qed

section \<open>C1: the range of the rate\<close>

text \<open>
  C1, amended. A throttler made by \<^verbatim>\<open>New\<close> and started, with a step multiplier \<open>k\<close> that
  is at least 0, and a schedule in which no evaluation tick computes a NaN step
  \<open>K * (L - avg)\<close> from an average that is a number: the rate that \<^verbatim>\<open>t.r\<close> points to
  afterwards lies between 0 and 100, both included. No step is NaN, whatever the samples
  (infinities and NaN among them), when the limit is finite and the multiplier is finite
  and positive. Every state the loop passes through is the state after a prefix of the
  schedule, so this holds all along.
\<close>

theorem rate_stays_in_range:
  assumes "(is_finite cpuLimit \<and> is_finite k \<and> flt (fl 0) k)
         \<or> (fle (fl 0) k \<and> list_all (step_defined cpuLimit k) (windows [] evs))"
  shows "rate_in_range (world_of (Start (New cpuLimit k i s) evs))"
proof -
  from assms finite_positive_steps [of cpuLimit k "windows [] evs"]
  have "fle (fl 0) k" and "list_all (step_defined cpuLimit k) (windows [] evs)" by blast+
  then show ?thesis by (intro Start_range) simp_all
qed

text \<open>
  With limit 10 and multiplier 2, a window of two samples of 20 takes the rate to 80 and a
  window of one sample of 0 takes it back to 100.
\<close>

theorem rate_stays_in_range_witness:
  "is_finite (fl 10) \<and> is_finite (fl 2) \<and> flt (fl 0) (fl 2)
   \<and> rate_in_range (world_of (Start (New (fl 10) (fl 2) 2000000 250000)
        [IstkTick (fl 20) None, IstkTick (fl 20) None, ItkTick, IstkTick (fl 0) None, ItkTick]))
   \<and> LoadPointer_r (world_of (Start (New (fl 10) (fl 2) 2000000 250000)
        [IstkTick (fl 20) None, IstkTick (fl 20) None, ItkTick, IstkTick (fl 0) None, ItkTick]))
       = Some (fl 100)"
proof -
  have h: "is_finite (fl 10) \<and> is_finite (fl 2) \<and> flt (fl 0) (fl 2)"
    by (simp add: is_finite_fl fl_arith)
  have v: "LoadPointer_r (world_of (Start (New (fl 10) (fl 2) 2000000 250000)
        [IstkTick (fl 20) None, IstkTick (fl 20) None, ItkTick, IstkTick (fl 0) None, ItkTick]))
       = Some (fl 100)"
    by (simp add: run_arith)
  from rate_stays_in_range [of "fl 10" "fl 2"
      "[IstkTick (fl 20) None, IstkTick (fl 20) None, ItkTick, IstkTick (fl 0) None, ItkTick]"
      2000000 250000] h v
  show ?thesis by blast
qed

text \<open>
  The claim as it was stated asks for \<open>K >= 0\<close> only, and fails there. With limit 10,
  multiplier 0 and a window of two samples of \<open>2 ^ 1023\<close>, the sum overflows to infinity,
  so does the average, \<open>L - avg\<close> is minus infinity, and the step \<open>0 * (L - avg)\<close> is NaN.
  NaN is neither below 0 nor above 100, so it passes the clamp of line 139 and is stored.
\<close>

theorem rate_leaves_range_counterexample:
  "fge (fl 0) (fl 0)
   \<and> LoadPointer_r (world_of (Start (New (fl 10) (fl 0) 2000000 250000)
        [IstkTick (fl (2 ^ 1023)) None, IstkTick (fl (2 ^ 1023)) None, ItkTick])) = Some nan
   \<and> \<not> rate_in_range (world_of (Start (New (fl 10) (fl 0) 2000000 250000)
        [IstkTick (fl (2 ^ 1023)) None, IstkTick (fl (2 ^ 1023)) None, ItkTick]))"
proof -
  define big :: real where "big = 2 ^ 1023"
  have eb: "exact big"
    by (rule exactI [of _ 1 2097]) (simp_all add: big_def scale64_def huge64_def)
  have s1: "fadd (fl 0) (fl big) = fl big"
    by (simp add: fadd_fl eb)
  have s2: "fadd (fl big) (fl big) = pinf"
    by (simp add: fadd_fl eb) (rule fl_overflow, simp add: big_def huge64_def)
  have s3: "fdiv pinf (fl 2) = pinf"
    by (simp add: fdiv_pinf)
  have s4: "fge pinf (fl 10)"
    by (simp add: fge_def fle_pinf)
  have s5: "fsub (fl 10) pinf = ninf"
    by (simp add: fsub_pinf)
  have k: "fge (fl 0) (fl 0)"
    by (simp add: fl_arith)
  have run: "LoadPointer_r (world_of (Start (New (fl 10) (fl 0) 2000000 250000)
        [IstkTick (fl big) None, IstkTick (fl big) None, ItkTick])) = Some nan"
    by (simp add: run_defs s1 s2 s3 s4 s5 fmul_zero_ninf fadd_nan)
  then have "\<not> rate_in_range (world_of (Start (New (fl 10) (fl 0) 2000000 250000)
        [IstkTick (fl big) None, IstkTick (fl big) None, ItkTick]))"
    by (simp add: rate_in_range_def)
  with k run show ?thesis unfolding big_def by blast
qed

section \<open>C8: windows at or above the limit\<close>

text \<open>
  C8, amended. With a step multiplier that is at least 0, no NaN step (as in C1: for
  instance a finite limit and a finite positive multiplier), and every window of the
  schedule with a mean, as the loop computes it, at or above the limit: the rate after
  any longer schedule is at most the rate after any prefix of it, and it is never below
  0. So from one evaluation tick to the next the rate never rises.
\<close>

theorem over_limit_rate_never_rises:
  assumes "list_all (mean_at_or_above cpuLimit) (windows [] (evs @ es))"
    and "(is_finite cpuLimit \<and> is_finite k \<and> flt (fl 0) k)
         \<or> (fle (fl 0) k \<and> list_all (step_defined cpuLimit k) (windows [] (evs @ es)))"
  shows "\<exists>v v'. LoadPointer_r (world_of (Start (New cpuLimit k i s) evs)) = Some v
           \<and> LoadPointer_r (world_of (Start (New cpuLimit k i s) (evs @ es))) = Some v'
           \<and> fle (fl 0) v' \<and> fle v' v"
proof -
  from assms(2) finite_positive_steps [of cpuLimit k "windows [] (evs @ es)"]
  have "fle (fl 0) k" and "list_all (step_defined cpuLimit k) (windows [] (evs @ es))"
    by blast+
  with assms(1) show ?thesis by (intro Start_decreases) simp_all
qed

text \<open>With limit 10 and multiplier 2, a window at 20 gives 80 and a next one at 30 gives 40.\<close>

theorem over_limit_rate_never_rises_witness:
  "list_all (mean_at_or_above (fl 10))
     (windows [] ([IstkTick (fl 20) None, ItkTick] @ [IstkTick (fl 30) None, ItkTick]))
   \<and> is_finite (fl 10) \<and> is_finite (fl 2) \<and> flt (fl 0) (fl 2)
   \<and> LoadPointer_r (world_of (Start (New (fl 10) (fl 2) 2000000 250000)
          [IstkTick (fl 20) None, ItkTick])) = Some (fl 80)
   \<and> LoadPointer_r (world_of (Start (New (fl 10) (fl 2) 2000000 250000)
          ([IstkTick (fl 20) None, ItkTick] @ [IstkTick (fl 30) None, ItkTick]))) = Some (fl 40)
   \<and> fle (fl 0) (fl 40) \<and> fle (fl 40) (fl 80)"
proof -
  have m: "list_all (mean_at_or_above (fl 10))
     (windows [] ([IstkTick (fl 20) None, ItkTick] @ [IstkTick (fl 30) None, ItkTick]))"
    by (simp add: mean_at_or_above_def window_avg_def float64_of_int_def fl_arith)
  have h: "is_finite (fl 10) \<and> is_finite (fl 2) \<and> flt (fl 0) (fl 2)"
    by (simp add: is_finite_fl fl_arith)
  have a: "LoadPointer_r (world_of (Start (New (fl 10) (fl 2) 2000000 250000)
          [IstkTick (fl 20) None, ItkTick])) = Some (fl 80)"
    by (simp add: run_arith)
  have b: "LoadPointer_r (world_of (Start (New (fl 10) (fl 2) 2000000 250000)
          ([IstkTick (fl 20) None, ItkTick] @ [IstkTick (fl 30) None, ItkTick]))) = Some (fl 40)"
    by (simp add: run_arith)
  from over_limit_rate_never_rises [of "fl 10" "[IstkTick (fl 20) None, ItkTick]"
      "[IstkTick (fl 30) None, ItkTick]" "fl 2" 2000000 250000] m h a b
  show ?thesis by auto
qed

text \<open>
  The claim as it was stated asks that every sample be at or above the limit, and fails
  there: the mean of such samples, computed in \<^verbatim>\<open>float64\<close>, can fall below the limit.
  With limit 50.3 and multiplier 2, a window of three samples of 75.3 takes the rate from
  100 to 50. In the next window the three samples are 50.3, the limit itself; their sum
  rounds to 150.89999999999998 and the mean to 50.29999999999999, which is below the
  limit, so the loop takes the branch that raises the rate, to \<open>50 + 2 ^ -46\<close>. The proof
  follows the loop operation by operation; each \<open>round64\<close> fact names the mantissa and the
  exponent of the rounded result.
\<close>

theorem rate_rises_counterexample:
  "list_all (at_or_above (fl (503 / 10)))
     ([IstkTick (fl (753 / 10)) None, IstkTick (fl (753 / 10)) None,
          IstkTick (fl (753 / 10)) None, ItkTick]
      @ [IstkTick (fl (503 / 10)) None, IstkTick (fl (503 / 10)) None,
          IstkTick (fl (503 / 10)) None, ItkTick])
   \<and> fge (fl 2) (fl 0)
   \<and> LoadPointer_r (world_of (Start (New (fl (503 / 10)) (fl 2) 2000000 250000)
         [IstkTick (fl (753 / 10)) None, IstkTick (fl (753 / 10)) None,
          IstkTick (fl (753 / 10)) None, ItkTick])) = Some (fl 50)
   \<and> LoadPointer_r (world_of (Start (New (fl (503 / 10)) (fl 2) 2000000 250000)
        ([IstkTick (fl (753 / 10)) None, IstkTick (fl (753 / 10)) None,
          IstkTick (fl (753 / 10)) None, ItkTick]
         @ [IstkTick (fl (503 / 10)) None, IstkTick (fl (503 / 10)) None,
          IstkTick (fl (503 / 10)) None, ItkTick]))) = Some (fl (50 + 1 / 2 ^ 46))
   \<and> flt (fl 50) (fl (50 + 1 / 2 ^ 46))"
proof -
  have e_0: "exact 0" by simp
  have e_2: "exact 2" by simp
  have e_3: "exact 3" by simp
  have e_100: "exact 100" by simp
  define lim :: real where "lim = real_of_int 7079095664272998 * 2 ^ 1027 / scale64"
  have r1: "round64 (503 / 10) = Num lim"
    unfolding lim_def
    by (rule round64_eval [where s = 1027 and M = "7079095664272998"])
       (simp_all add:  scale64_def huge64_def rne_def Let_def)
  have e_lim: "exact lim"
    using round64_idem [OF r1] by (simp add: exact_def)
  have l_lim: "fl (503 / 10) = fl lim"
    using fl_round [OF r1] by simp
  define hot :: real where "hot = real_of_int 5298766436578099 * 2 ^ 1028 / scale64"
  have r2: "round64 (753 / 10) = Num hot"
    unfolding hot_def
    by (rule round64_eval [where s = 1028 and M = "5298766436578099"])
       (simp_all add:  scale64_def huge64_def rne_def Let_def)
  have e_hot: "exact hot"
    using round64_idem [OF r2] by (simp add: exact_def)
  have l_hot: "fl (753 / 10) = fl hot"
    using fl_round [OF r2] by simp
  have r3: "round64 (0 + hot) = Num hot"
  proof -
    have "round64 (0 + hot) = Num (real_of_int 5298766436578099 * 2 ^ 1028 / scale64)"
      by (rule round64_eval [where s = 1028 and M = "5298766436578099"])
         (simp_all add: hot_def scale64_def huge64_def rne_def Let_def)
    moreover have "real_of_int 5298766436578099 * 2 ^ 1028 / scale64 = hot"
      by (simp add: hot_def scale64_def)
    ultimately show ?thesis by simp
  qed
  have f3: "fadd (fl 0) (fl hot) = fl hot"
    using fl_round [OF r3] by (simp add: fadd_fl e_0 e_hot)
  define asum2 :: real where "asum2 = real_of_int 5298766436578099 * 2 ^ 1029 / scale64"
  have r4: "round64 (hot + hot) = Num asum2"
    unfolding asum2_def
    by (rule round64_eval [where s = 1029 and M = "5298766436578099"])
       (simp_all add: hot_def hot_def scale64_def huge64_def rne_def Let_def)
  have e_asum2: "exact asum2"
    using round64_idem [OF r4] by (simp add: exact_def)
  have f4: "fadd (fl hot) (fl hot) = fl asum2"
    using fl_round [OF r4] by (simp add: fadd_fl e_hot e_hot)
  define asum3 :: real where "asum3 = real_of_int 7948149654867148 * 2 ^ 1029 / scale64"
  have r5: "round64 (asum2 + hot) = Num asum3"
    unfolding asum3_def
    by (rule round64_eval [where s = 1029 and M = "7948149654867148"])
       (simp_all add: asum2_def hot_def scale64_def huge64_def rne_def Let_def)
  have e_asum3: "exact asum3"
    using round64_idem [OF r5] by (simp add: exact_def)
  have f5: "fadd (fl asum2) (fl hot) = fl asum3"
    using fl_round [OF r5] by (simp add: fadd_fl e_asum2 e_hot)
  have r6: "round64 (asum3 / 3) = Num hot"
  proof -
    have "round64 (asum3 / 3) = Num (real_of_int 5298766436578099 * 2 ^ 1028 / scale64)"
      by (rule round64_eval [where s = 1028 and M = "5298766436578099"])
         (simp_all add: asum3_def scale64_def huge64_def rne_def Let_def)
    moreover have "real_of_int 5298766436578099 * 2 ^ 1028 / scale64 = hot"
      by (simp add: hot_def scale64_def)
    ultimately show ?thesis by simp
  qed
  have f6: "fdiv (fl asum3) (fl 3) = fl hot"
    using fl_round [OF r6] by (simp add: fdiv_fl e_asum3 e_3)
  have c7: "fle (fl lim) (fl hot)"
    unfolding fle_fl [OF e_lim e_hot]
    by (simp add: lim_def hot_def scale64_def)
  define agap :: real where "agap = real_of_int (-7036874417766400) * 2 ^ 1026 / scale64"
  have r8: "round64 (lim - hot) = Num agap"
    unfolding agap_def
    by (rule round64_eval [where s = 1026 and M = "-7036874417766400"])
       (simp_all add: lim_def hot_def scale64_def huge64_def rne_def Let_def)
  have e_agap: "exact agap"
    using round64_idem [OF r8] by (simp add: exact_def)
  have f8: "fsub (fl lim) (fl hot) = fl agap"
    using fl_round [OF r8] by (simp add: fsub_fl e_lim e_hot)
  define astep :: real where "astep = real_of_int (-7036874417766400) * 2 ^ 1027 / scale64"
  have r9: "round64 (2 * agap) = Num astep"
    unfolding astep_def
    by (rule round64_eval [where s = 1027 and M = "-7036874417766400"])
       (simp_all add: agap_def scale64_def huge64_def rne_def Let_def)
  have e_astep: "exact astep"
    using round64_idem [OF r9] by (simp add: exact_def)
  have f9: "fmul (fl 2) (fl agap) = fl astep"
    using fl_round [OF r9] by (simp add: fmul_fl e_2 e_agap)
  define anew :: real where "anew = real_of_int 7036874417766400 * 2 ^ 1027 / scale64"
  have r10: "round64 (100 + astep) = Num anew"
    unfolding anew_def
    by (rule round64_eval [where s = 1027 and M = "7036874417766400"])
       (simp_all add: astep_def scale64_def huge64_def rne_def Let_def)
  have e_anew: "exact anew"
    using round64_idem [OF r10] by (simp add: exact_def)
  have f10: "fadd (fl 100) (fl astep) = fl anew"
    using fl_round [OF r10] by (simp add: fadd_fl e_100 e_astep)
  have c11: "\<not> flt (fl anew) (fl 0)"
    unfolding flt_fl [OF e_anew e_0]
    by (simp add: anew_def scale64_def)
  have r12: "round64 (0 + lim) = Num lim"
  proof -
    have "round64 (0 + lim) = Num (real_of_int 7079095664272998 * 2 ^ 1027 / scale64)"
      by (rule round64_eval [where s = 1027 and M = "7079095664272998"])
         (simp_all add: lim_def scale64_def huge64_def rne_def Let_def)
    moreover have "real_of_int 7079095664272998 * 2 ^ 1027 / scale64 = lim"
      by (simp add: lim_def scale64_def)
    ultimately show ?thesis by simp
  qed
  have f12: "fadd (fl 0) (fl lim) = fl lim"
    using fl_round [OF r12] by (simp add: fadd_fl e_0 e_lim)
  define bsum2 :: real where "bsum2 = real_of_int 7079095664272998 * 2 ^ 1028 / scale64"
  have r13: "round64 (lim + lim) = Num bsum2"
    unfolding bsum2_def
    by (rule round64_eval [where s = 1028 and M = "7079095664272998"])
       (simp_all add: lim_def lim_def scale64_def huge64_def rne_def Let_def)
  have e_bsum2: "exact bsum2"
    using round64_idem [OF r13] by (simp add: exact_def)
  have f13: "fadd (fl lim) (fl lim) = fl bsum2"
    using fl_round [OF r13] by (simp add: fadd_fl e_lim e_lim)
  define bsum3 :: real where "bsum3 = real_of_int 5309321748204748 * 2 ^ 1029 / scale64"
  have r14: "round64 (bsum2 + lim) = Num bsum3"
    unfolding bsum3_def
    by (rule round64_eval [where s = 1029 and M = "5309321748204748"])
       (simp_all add: bsum2_def lim_def scale64_def huge64_def rne_def Let_def)
  have e_bsum3: "exact bsum3"
    using round64_idem [OF r14] by (simp add: exact_def)
  have f14: "fadd (fl bsum2) (fl lim) = fl bsum3"
    using fl_round [OF r14] by (simp add: fadd_fl e_bsum2 e_lim)
  define bavg :: real where "bavg = real_of_int 7079095664272997 * 2 ^ 1027 / scale64"
  have r15: "round64 (bsum3 / 3) = Num bavg"
    unfolding bavg_def
    by (rule round64_eval [where s = 1027 and M = "7079095664272997"])
       (simp_all add: bsum3_def scale64_def huge64_def rne_def Let_def)
  have e_bavg: "exact bavg"
    using round64_idem [OF r15] by (simp add: exact_def)
  have f15: "fdiv (fl bsum3) (fl 3) = fl bavg"
    using fl_round [OF r15] by (simp add: fdiv_fl e_bsum3 e_3)
  have c16: "\<not> fle (fl lim) (fl bavg)"
    unfolding fle_fl [OF e_lim e_bavg]
    by (simp add: lim_def bavg_def scale64_def)
  have c17: "flt (fl bavg) (fl lim)"
    unfolding flt_fl [OF e_bavg e_lim]
    by (simp add: bavg_def lim_def scale64_def)
  define bgap :: real where "bgap = real_of_int 4503599627370496 * 2 ^ 975 / scale64"
  have r18: "round64 (lim - bavg) = Num bgap"
    unfolding bgap_def
    by (rule round64_eval [where s = 975 and M = "4503599627370496"])
       (simp_all add: lim_def bavg_def scale64_def huge64_def rne_def Let_def)
  have e_bgap: "exact bgap"
    using round64_idem [OF r18] by (simp add: exact_def)
  have f18: "fsub (fl lim) (fl bavg) = fl bgap"
    using fl_round [OF r18] by (simp add: fsub_fl e_lim e_bavg)
  define bstep :: real where "bstep = real_of_int 4503599627370496 * 2 ^ 976 / scale64"
  have r19: "round64 (2 * bgap) = Num bstep"
    unfolding bstep_def
    by (rule round64_eval [where s = 976 and M = "4503599627370496"])
       (simp_all add: bgap_def scale64_def huge64_def rne_def Let_def)
  have e_bstep: "exact bstep"
    using round64_idem [OF r19] by (simp add: exact_def)
  have f19: "fmul (fl 2) (fl bgap) = fl bstep"
    using fl_round [OF r19] by (simp add: fmul_fl e_2 e_bgap)
  define bnew :: real where "bnew = real_of_int 7036874417766402 * 2 ^ 1027 / scale64"
  have r20: "round64 (anew + bstep) = Num bnew"
    unfolding bnew_def
    by (rule round64_eval [where s = 1027 and M = "7036874417766402"])
       (simp_all add: anew_def bstep_def scale64_def huge64_def rne_def Let_def)
  have e_bnew: "exact bnew"
    using round64_idem [OF r20] by (simp add: exact_def)
  have f20: "fadd (fl anew) (fl bstep) = fl bnew"
    using fl_round [OF r20] by (simp add: fadd_fl e_anew e_bstep)
  have c21: "\<not> flt (fl 100) (fl bnew)"
    unfolding flt_fl [OF e_100 e_bnew]
    by (simp add: bnew_def scale64_def)
  have c22: "fle (fl lim) (fl hot)"
    unfolding fle_fl [OF e_lim e_hot]
    by (simp add: lim_def hot_def scale64_def)
  have c23: "fle (fl lim) (fl lim)"
    unfolding fle_fl [OF e_lim e_lim]
    by (simp add: lim_def lim_def scale64_def)
  have c24: "flt (fl anew) (fl bnew)"
    unfolding flt_fl [OF e_anew e_bnew]
    by (simp add: anew_def bnew_def scale64_def)
  note facts = l_lim l_hot f3 f4 f5 f6 c7 f8 f9 f10 c11 f12 f13 f14 f15 c16 c17 f18 f19 f20 c21 c22 c23 c24
  have v1: "anew = 50" by (simp add: anew_def scale64_def)
  have v2: "bnew = 50 + 1 / 2 ^ 46" by (simp add: bnew_def scale64_def)
  have k: "fge (fl 2) (fl 0)" by (simp add: fl_arith)
  have al: "list_all (at_or_above (fl (503 / 10)))
     ([IstkTick (fl (753 / 10)) None, IstkTick (fl (753 / 10)) None,
          IstkTick (fl (753 / 10)) None, ItkTick]
      @ [IstkTick (fl (503 / 10)) None, IstkTick (fl (503 / 10)) None,
          IstkTick (fl (503 / 10)) None, ItkTick])"
    by (simp add: fge_def facts)
  have runA: "LoadPointer_r (world_of (Start (New (fl (503 / 10)) (fl 2) 2000000 250000)
         [IstkTick (fl (753 / 10)) None, IstkTick (fl (753 / 10)) None,
          IstkTick (fl (753 / 10)) None, ItkTick])) = Some (fl anew)"
    by (simp add: run_defs fge_def fgt_def facts)
  have runB: "LoadPointer_r (world_of (Start (New (fl (503 / 10)) (fl 2) 2000000 250000)
        ([IstkTick (fl (753 / 10)) None, IstkTick (fl (753 / 10)) None,
          IstkTick (fl (753 / 10)) None, ItkTick]
         @ [IstkTick (fl (503 / 10)) None, IstkTick (fl (503 / 10)) None,
          IstkTick (fl (503 / 10)) None, ItkTick]))) = Some (fl bnew)"
    by (simp add: run_defs fge_def fgt_def facts)
  have rise: "flt (fl anew) (fl bnew)" by (simp add: facts)
  from al k runA runB rise show ?thesis unfolding v1 v2 by blast
qed

section \<open>The evaluation tick against the specification\<close>

lemma spec_write_None_iff:
  "spec_write l k cur xs = None \<longleftrightarrow> is_nan (window_avg xs) \<or> is_nan l"
proof -
  have "(\<not> fge a l \<and> \<not> flt a l) = (is_nan a \<or> is_nan l)" for a
    by (cases "Rep_float64 a"; cases "Rep_float64 l") (auto simp: fge_def rep_eqs)
  then show ?thesis by (auto simp: spec_write_def Let_def)
qed

text \<open>
  C2. An evaluation tick with a sample buffer that is not empty, at current rate
  \<open>currentR\<close>: the turn of the loop does what the specification describes (\<open>spec_write\<close>:
  mean, step, sum; if the mean is at or above the limit the sum clamped below by 0 is
  written, if the mean is below the limit the sum clamped above by 100 is written). In
  both branches the write always happens: afterwards \<^verbatim>\<open>t.r\<close> points to the box allocated
  by this tick, also when the value in it equals the old rate. Neither branch is taken
  only when the mean or the limit is NaN; then nothing is written. In every case the loop
  goes on with an empty buffer. The operations are those of \<^verbatim>\<open>float64\<close>, the mean being
  the sum in buffer order divided by the count.
\<close>

theorem evaluation_tick_adjusts:
  assumes "stats lv \<noteq> []" and "LoadPointer_r w = Some currentR"
  shows "\<exists>w'. select_case w lv ItkTick = Continue w' (lv\<lparr>stats := []\<rparr>)
           \<and> stats (lv\<lparr>stats := []\<rparr>) = []
           \<and> (case spec_write (L (thr w)) (K (thr w)) currentR (stats lv) of
                Some v \<Rightarrow> w' = StorePointer_r w v \<and> LoadPointer_r w' = Some v
                           \<and> r (thr w') = Some (fresh w) \<and> fresh w' = Suc (fresh w)
              | None \<Rightarrow> w' = w)
           \<and> ((spec_write (L (thr w)) (K (thr w)) currentR (stats lv) = None)
                = (is_nan (window_avg (stats lv)) \<or> is_nan (L (thr w))))"
proof (cases "spec_write (L (thr w)) (K (thr w)) currentR (stats lv)")
  case None
  moreover from None have "is_nan (window_avg (stats lv)) \<or> is_nan (L (thr w))"
    by (simp only: spec_write_None_iff)
  ultimately show ?thesis
    by (simp del: select_case.simps add: ItkTick_nonempty [OF assms])
next
  case (Some v)
  moreover from Some have "\<not> (is_nan (window_avg (stats lv)) \<or> is_nan (L (thr w)))"
    using spec_write_None_iff [of "L (thr w)" "K (thr w)" currentR "stats lv"] by simp
  ultimately show ?thesis
    by (simp del: select_case.simps add: ItkTick_nonempty [OF assms])
qed

text \<open>
  Two ticks on the throttler \<^verbatim>\<open>New(10, 2, 2ms, 250us)\<close>, whose rate is 100 in box 0. Samples
  of 20 give 80. A sample of 0 gives 120, clamped to 100: the rate is what it was, and it
  was written all the same, into the new box 1.
\<close>

theorem evaluation_tick_adjusts_witness:
  "stats \<lparr>itk = 0, istk = 1, stats = [fl 20, fl 20]\<rparr> \<noteq> []
   \<and> LoadPointer_r (New (fl 10) (fl 2) 2000000 250000) = Some (fl 100)
   \<and> spec_write (fl 10) (fl 2) (fl 100) [fl 20, fl 20] = Some (fl 80)
   \<and> select_case (New (fl 10) (fl 2) 2000000 250000)
        \<lparr>itk = 0, istk = 1, stats = [fl 20, fl 20]\<rparr> ItkTick
       = Continue (StorePointer_r (New (fl 10) (fl 2) 2000000 250000) (fl 80))
           \<lparr>itk = 0, istk = 1, stats = []\<rparr>
   \<and> r (thr (New (fl 10) (fl 2) 2000000 250000)) = Some 0
   \<and> spec_write (fl 10) (fl 2) (fl 100) [fl 0] = Some (fl 100)
   \<and> (\<exists>w'. select_case (New (fl 10) (fl 2) 2000000 250000)
              \<lparr>itk = 0, istk = 1, stats = [fl 0]\<rparr> ItkTick
              = Continue w' \<lparr>itk = 0, istk = 1, stats = []\<rparr>
          \<and> LoadPointer_r w' = Some (fl 100) \<and> r (thr w') = Some 1)"
proof -
  have h1: "stats \<lparr>itk = 0, istk = 1, stats = [fl 20, fl 20]\<rparr> \<noteq> []" by simp
  have h2: "LoadPointer_r (New (fl 10) (fl 2) 2000000 250000) = Some (fl 100)" by simp
  have h3: "stats \<lparr>itk = 0, istk = 1, stats = [fl 0]\<rparr> \<noteq> []" by simp
  have v: "spec_write (fl 10) (fl 2) (fl 100) [fl 20, fl 20] = Some (fl 80)"
    by (simp add: spec_write_def window_avg_def float64_of_int_def fl_arith)
  have v': "spec_write (fl 10) (fl 2) (fl 100) [fl 0] = Some (fl 100)"
    by (simp add: spec_write_def window_avg_def float64_of_int_def fl_arith)
  have f: "fresh (New (fl 10) (fl 2) 2000000 250000) = 1" by (simp add: New_def)
  from evaluation_tick_adjusts [OF h1 h2] evaluation_tick_adjusts [OF h3 h2] h1 h2 v v' f
  show ?thesis
    by (simp del: select_case.simps)
qed

section \<open>Stop\<close>

text \<open>
  The receiving side of the loop is as documented: with a channel in \<^verbatim>\<open>t.done\<close>, an
  offered send makes the loop stop both tickers and return nil, and the deferred function
  clears \<^verbatim>\<open>started\<close>.
\<close>

lemma select_case_done_ready:
  "done_ch (thr w) = Some c \<Longrightarrow>
     select_case w lv StopSend = Return None (StopTicker (StopTicker w (istk lv)) (itk lv))"
  by simp

lemma Start_returns_on_done:
  assumes "\<not> started (thr w)" and "done_ch (thr w) = Some c"
    and "0 < interval (thr w)" and "0 < intervalStep (thr w)"
  shows "\<exists>w'. Start w (StopSend # es) = Returned None w' \<and> \<not> started (thr w')
           \<and> tickers w' = tickers w @ [False, False] \<and> LoadPointer_r w' = Some (fl 100)"
  using assms
  by (simp add: run_defs list_update_append)

text \<open>
  \<^verbatim>\<open>New\<close> leaves \<^verbatim>\<open>t.done\<close> nil, though, and no other line assigns it. So on a throttler
  made by \<^verbatim>\<open>New\<close> the loop can only stay blocked in \<^verbatim>\<open>select\<close>, whatever happens.
\<close>

lemma Start_New_Blocked_or_Panicked:
  "(\<exists>w lv. Start (New cpuLimit k i s) evs = Blocked w lv \<and> started (thr w))
   \<or> (\<exists>w. Start (New cpuLimit k i s) evs = Panicked NonPositiveTickerInterval w
          \<and> started (thr w))"
proof -
  have "\<not> started (thr (New cpuLimit k i s))" by simp
  then show ?thesis
  proof (cases rule: Start_fresh_cases)
    case (ticker_panic w')
    then show ?thesis by simp
  next
    case (running w' lv)
    have "done_ch (thr w') = None" "r (thr w') \<noteq> None" "started (thr w')"
      using running(3) by simp_all
    from loop_nil_done_Blocked [OF this(1,2), of lv evs] this(3) show ?thesis
      by (auto simp: running(1))
  qed
qed

text \<open>
  C3, as the code has it. On a throttler made by \<^verbatim>\<open>New\<close>, \<^verbatim>\<open>Stop\<close> blocks for ever;
  \<^verbatim>\<open>Start\<close> never returns, whatever the schedule and however many calls of \<^verbatim>\<open>Stop\<close>
  it holds; \<^verbatim>\<open>started\<close> stays set; and a later \<^verbatim>\<open>Start\<close> is turned down with
  \<^verbatim>\<open>ErrAlreadyStarted\<close>. The doc comments of lines 87 and 167 promise that \<^verbatim>\<open>Stop\<close>
  stops the throttler and that \<^verbatim>\<open>Start\<close> can then be called again.
\<close>

theorem Stop_never_reaches_the_loop:
  "Stop (New cpuLimit k i s) = SendBlocksForever
   \<and> (\<forall>err w. Start (New cpuLimit k i s) evs \<noteq> Returned err w)
   \<and> started (thr (world_of (Start (New cpuLimit k i s) evs)))
   \<and> Start (world_of (Start (New cpuLimit k i s) evs)) evs'
       = Returned (Some ErrAlreadyStarted) (world_of (Start (New cpuLimit k i s) evs))"
proof -
  have a: "Stop (New cpuLimit k i s) = SendBlocksForever" by (simp add: Stop_def)
  from Start_New_Blocked_or_Panicked [of cpuLimit k i s evs]
  have b: "\<forall>err w. Start (New cpuLimit k i s) evs \<noteq> Returned err w"
    and c: "started (thr (world_of (Start (New cpuLimit k i s) evs)))" by auto
  from a b c Start_started [OF c] show ?thesis by simp
qed

text \<open>
  \<^verbatim>\<open>New(10, 2, 2ms, 250us)\<close>, started, one sample of 20, a call of \<^verbatim>\<open>Stop\<close>, an
  evaluation tick: the loop is still blocked in \<^verbatim>\<open>select\<close> with both tickers running,
  and has adjusted the rate to 80 after the call of \<^verbatim>\<open>Stop\<close>.
\<close>

theorem Stop_never_reaches_the_loop_witness:
  "Stop (New (fl 10) (fl 2) 2000000 250000) = SendBlocksForever
   \<and> Start (New (fl 10) (fl 2) 2000000 250000) [IstkTick (fl 20) None, StopSend, ItkTick]
       = Blocked (StorePointer_r ((StorePointer_r
                    ((New (fl 10) (fl 2) 2000000 250000)
                       \<lparr>thr := (thr (New (fl 10) (fl 2) 2000000 250000))\<lparr>started := True\<rparr>\<rparr>)
                    (fl 100))
                    \<lparr>tickers := [True, True]\<rparr>) (fl 80))
                 \<lparr>itk = 0, istk = 1, stats = []\<rparr>
   \<and> started (thr (world_of (Start (New (fl 10) (fl 2) 2000000 250000)
         [IstkTick (fl 20) None, StopSend, ItkTick])))
   \<and> Start (world_of (Start (New (fl 10) (fl 2) 2000000 250000)
         [IstkTick (fl 20) None, StopSend, ItkTick])) []
       = Returned (Some ErrAlreadyStarted)
           (world_of (Start (New (fl 10) (fl 2) 2000000 250000)
              [IstkTick (fl 20) None, StopSend, ItkTick]))"
  using Stop_never_reaches_the_loop [of "fl 10" "fl 2" 2000000 250000
      "[IstkTick (fl 20) None, StopSend, ItkTick]" "[]"]
  by (simp add: run_arith)

section \<open>Right after activation\<close>

text \<open>
  C4. \<^verbatim>\<open>Start\<close> on a throttler that is not running, and a schedule without an evaluation
  tick: the rate is exactly 100, and \<^verbatim>\<open>Allow\<close> returns true for every \<^verbatim>\<open>float64\<close> below 1
  that the generator can draw, since the draw times 100, rounded, is then below 100.
\<close>

theorem optimistic_start:
  assumes "\<not> started (thr w)" and "ItkTick \<notin> set evs" and "flt f (fl 1)"
  shows "LoadPointer_r (world_of (Start w evs)) = Some (fl 100)
       \<and> Allow (world_of (Start w evs)) f = Inr True"
proof -
  have "LoadPointer_r (world_of (Start w evs)) = Some (fl 100)"
    using assms(1)
  proof (cases rule: Start_fresh_cases)
    case (ticker_panic w')
    then show ?thesis by simp
  next
    case (running w' lv)
    then show ?thesis by (simp add: loop_no_ItkTick [OF assms(2)])
  qed
  then show ?thesis using draw_below_100 [OF assms(3)] by (simp add: Allow_def)
qed

theorem optimistic_start_witness:
  "\<not> started (thr (New (fl 10) (fl 2) 2000000 250000))
   \<and> ItkTick \<notin> set [IstkTick (fl 20) None, IstkTick (fl 0) (Some (SamplerError ''unavailable''))]
   \<and> flt (fl (1 / 2)) (fl 1)
   \<and> LoadPointer_r (world_of (Start (New (fl 10) (fl 2) 2000000 250000)
        [IstkTick (fl 20) None, IstkTick (fl 0) (Some (SamplerError ''unavailable''))]))
       = Some (fl 100)
   \<and> Allow (world_of (Start (New (fl 10) (fl 2) 2000000 250000)
        [IstkTick (fl 20) None, IstkTick (fl 0) (Some (SamplerError ''unavailable''))])) (fl (1 / 2))
       = Inr True"
proof -
  have d: "flt (fl (1 / 2)) (fl 1)" by (simp add: fl_arith)
  from optimistic_start [of "New (fl 10) (fl 2) 2000000 250000"
      "[IstkTick (fl 20) None, IstkTick (fl 0) (Some (SamplerError ''unavailable''))]"
      "fl (1 / 2)"] d
  show ?thesis by simp
qed

section \<open>Allow\<close>

text \<open>
  The pointer \<^verbatim>\<open>t.r\<close>, once set, stays set; so on a throttler made by \<^verbatim>\<open>New\<close>, before
  \<^verbatim>\<open>Start\<close> or at any point of any run of it, \<^verbatim>\<open>Allow\<close> does not panic: for a draw
  \<open>f\<close> from 0 (included) to 1 (excluded) it returns whether \<open>u\<close>, the rounded product of
  \<open>f\<close> and 100, a number from 0 (included) to 100 (excluded), is below the current rate.
  How the draws are distributed is the generator's matter and has no counterpart here.
\<close>

lemma select_case_r_not_nil:
  assumes "r (thr w) \<noteq> None"
  shows "case select_case w lv e of
           Continue w' lv' \<Rightarrow> r (thr w') \<noteq> None
         | Return err w' \<Rightarrow> r (thr w') \<noteq> None
         | Panic p w' \<Rightarrow> r (thr w') \<noteq> None"
  using assms
  by (cases e) (auto simp: Let_def split: option.splits if_splits)

lemma loop_r_not_nil:
  "r (thr w) \<noteq> None \<Longrightarrow> r (thr (world_of (loop w lv evs))) \<noteq> None"
proof (induction evs arbitrary: w lv)
  case Nil
  then show ?case by simp
next
  case (Cons e evs)
  from select_case_r_not_nil [OF Cons.prems, of lv e] Cons.IH
  show ?case by (auto split: iteration.splits)
qed

lemma r_run_deferred [simp]:
  "r (thr (world_of (run_deferred out))) = r (thr (world_of out))"
  by (cases out) (simp_all add: deferred_def)

lemma Start_r_not_nil:
  assumes "r (thr w) \<noteq> None"
  shows "r (thr (world_of (Start w evs))) \<noteq> None"
proof (cases "started (thr w)")
  case True
  then show ?thesis using assms by (simp add: Start_started)
next
  case False
  then show ?thesis
  proof (cases rule: Start_fresh_cases)
    case (ticker_panic w')
    then show ?thesis by simp
  next
    case (running w' lv)
    have "r (thr w') \<noteq> None" using running(3) by simp
    from loop_r_not_nil [OF this, of lv evs] show ?thesis by (simp add: running(1))
  qed
qed

lemma Allow_pointer_set:
  assumes "r (thr w) = Some a"
  shows "LoadPointer_r w = Some (heap w a)
       \<and> Allow w f = Inr (flt (fmul f (fl 100)) (heap w a))"
  using assms by (simp add: Allow_def LoadPointer_r_def)

lemma Allow_on_made_throttler:
  assumes "w = New cpuLimit k i s \<or> w = world_of (Start (New cpuLimit k i s) evs)"
    and "fle (fl 0) f" and "flt f (fl 1)"
  shows "\<exists>rate. LoadPointer_r w = Some rate
           \<and> fle (fl 0) (fmul f (fl 100)) \<and> flt (fmul f (fl 100)) (fl 100)
           \<and> Allow w f = Inr (flt (fmul f (fl 100)) rate)"
proof -
  have "r (thr (New cpuLimit k i s)) \<noteq> None" by simp
  with assms(1) Start_r_not_nil [of "New cpuLimit k i s" evs]
  obtain a where "r (thr w) = Some a" by auto
  from Allow_pointer_set [OF this, of f] draw_nonneg [OF assms(2)] draw_below_100 [OF assms(3)]
  show ?thesis by simp
qed

section \<open>Start on a running throttler\<close>

text \<open>
  C6. \<^verbatim>\<open>Start\<close> with \<^verbatim>\<open>started\<close> set returns \<^verbatim>\<open>ErrAlreadyStarted\<close>, which is not nil,
  and changes nothing: the world is the same, so the rate is not reset and the flag is
  still set, and the loop that is running, with its own variables \<open>lv\<close> (sample buffer
  and tickers), goes on exactly as it would have.
\<close>

theorem second_Start_is_rejected:
  assumes "started (thr w)"
  shows "Start w evs = Returned (Some ErrAlreadyStarted) w
       \<and> Some ErrAlreadyStarted \<noteq> (None :: error option)
       \<and> LoadPointer_r (world_of (Start w evs)) = LoadPointer_r w
       \<and> started (thr (world_of (Start w evs)))
       \<and> loop (world_of (Start w evs)) lv es = loop w lv es"
  using assms by (simp add: Start_def)

theorem second_Start_is_rejected_witness:
  "started (thr (world_of (Start (New (fl 10) (fl 2) 2000000 250000)
       [IstkTick (fl 20) None, ItkTick])))
   \<and> Start (world_of (Start (New (fl 10) (fl 2) 2000000 250000)
        [IstkTick (fl 20) None, ItkTick])) []
       = Returned (Some ErrAlreadyStarted)
           (world_of (Start (New (fl 10) (fl 2) 2000000 250000) [IstkTick (fl 20) None, ItkTick]))
   \<and> LoadPointer_r (world_of (Start (world_of (Start (New (fl 10) (fl 2) 2000000 250000)
         [IstkTick (fl 20) None, ItkTick])) [])) = Some (fl 80)"
proof -
  let ?w = "world_of (Start (New (fl 10) (fl 2) 2000000 250000) [IstkTick (fl 20) None, ItkTick])"
  have s: "started (thr ?w)" by (simp add: run_arith)
  have v: "LoadPointer_r ?w = Some (fl 80)" by (simp add: run_arith)
  from second_Start_is_rejected [OF s, of "[]"] s v show ?thesis by simp
qed

section \<open>An evaluation tick without samples\<close>

text \<open>
  C7. An evaluation tick with an empty sample buffer writes a line to the log and nothing
  else: the rate, the throttler and the heap are as before, the buffer is still empty, and
  the loop goes on with the next event.
\<close>

theorem empty_window_leaves_rate:
  assumes "stats lv = []"
  shows "select_case w lv ItkTick = Continue (Println w NoStatsCollected) lv
       \<and> LoadPointer_r (Println w NoStatsCollected) = LoadPointer_r w
       \<and> thr (Println w NoStatsCollected) = thr w
       \<and> heap (Println w NoStatsCollected) = heap w
       \<and> loop w lv (ItkTick # es) = loop (Println w NoStatsCollected) lv es"
  using assms by simp

theorem empty_window_leaves_rate_witness:
  "stats \<lparr>itk = 0, istk = 1, stats = []\<rparr> = []
   \<and> select_case (StorePointer_r (New (fl 10) (fl 2) 2000000 250000) (fl 60))
        \<lparr>itk = 0, istk = 1, stats = []\<rparr> ItkTick
       = Continue (Println (StorePointer_r (New (fl 10) (fl 2) 2000000 250000) (fl 60))
                     NoStatsCollected)
           \<lparr>itk = 0, istk = 1, stats = []\<rparr>
   \<and> LoadPointer_r (Println (StorePointer_r (New (fl 10) (fl 2) 2000000 250000) (fl 60))
        NoStatsCollected) = Some (fl 60)
   \<and> LoadPointer_r (world_of (Start (New (fl 10) (fl 2) 2000000 250000)
        [IstkTick (fl 20) None, ItkTick,
         IstkTick (fl 0) (Some (SamplerError ''unavailable'')), ItkTick]))
       = Some (fl 80)"
proof -
  have e: "stats \<lparr>itk = 0, istk = 1, stats = []\<rparr> = []" by simp
  have v: "LoadPointer_r (world_of (Start (New (fl 10) (fl 2) 2000000 250000)
        [IstkTick (fl 20) None, ItkTick,
         IstkTick (fl 0) (Some (SamplerError ''unavailable'')), ItkTick]))
       = Some (fl 80)" by (simp add: run_arith)
  from empty_window_leaves_rate [OF e, of "StorePointer_r (New (fl 10) (fl 2) 2000000 250000) (fl 60)" "[]"] v
  show ?thesis by simp
qed

section \<open>Allow at rate 0\<close>

text \<open>
  C10. When the current rate is 0, \<^verbatim>\<open>Allow\<close> returns false for every number the
  generator can draw (at least 0, below 1): the draw times 100 is never below 0.
\<close>

theorem Allow_rate_zero:
  assumes "LoadPointer_r w = Some (fl 0)" and "fle (fl 0) f" and "flt f (fl 1)"
  shows "Allow w f = Inr False"
  using assms(1) fle_flt_False [OF draw_nonneg [OF assms(2)]]
  by (auto simp: Allow_def)

theorem Allow_rate_zero_witness:
  "LoadPointer_r (world_of (Start (New (fl 10) (fl 10) 2000000 250000)
      [IstkTick (fl 20) None, ItkTick])) = Some (fl 0)
   \<and> fle (fl 0) (fl 0) \<and> flt (fl 0) (fl 1)
   \<and> Allow (world_of (Start (New (fl 10) (fl 10) 2000000 250000)
        [IstkTick (fl 20) None, ItkTick])) (fl 0) = Inr False"
proof -
  have h: "LoadPointer_r (world_of (Start (New (fl 10) (fl 10) 2000000 250000)
      [IstkTick (fl 20) None, ItkTick])) = Some (fl 0)"
    by (simp add: run_arith)
  have d: "fle (fl 0) (fl 0)" "flt (fl 0) (fl 1)" by (simp_all add: fl_arith)
  show ?thesis
    using h d Allow_rate_zero [OF h d] by simp
qed

end
